theory Spec2Isabelle
  imports Complex_Main "HOL-Library.List_Lexorder" "HOL-Library.Char_ord"
    "HOL-Library.Multiset"
begin

section \<open>Errors\<close>

text \<open>
  The exceptions a request handler of \<^verbatim>\<open>backend/server.py\<close> can leave with.
  \<open>HTTPException\<close> is the only one the handlers raise on purpose (status code and detail);
  the others are raised by the Python runtime and are not caught anywhere in the handlers.
\<close>

datatype py_error =
    ValueError
  | ZeroDivisionError
  | OverflowError
  | HTTPException nat string

section \<open>Calendar and clock\<close>

text \<open>
  A \<^verbatim>\<open>datetime\<close> value as the Python class stores it: the fields of the proleptic
  Gregorian calendar. The readings of \<^verbatim>\<open>datetime.now(timezone.utc)\<close> are such values
  with the UTC offset 0.
\<close>

record datetime =
  year :: nat
  month :: nat
  day :: nat
  hour :: nat
  minute :: nat
  second :: nat
  microsecond :: nat

definition is_leap :: "nat \<Rightarrow> bool" where
  "is_leap y \<longleftrightarrow> y mod 4 = 0 \<and> (y mod 100 \<noteq> 0 \<or> y mod 400 = 0)"

definition days_in_month :: "nat \<Rightarrow> nat \<Rightarrow> nat" where
  "days_in_month y m =
     (if m = 2 then (if is_leap y then 29 else 28)
      else if m = 4 \<or> m = 6 \<or> m = 9 \<or> m = 11 then 30 else 31)"

definition days_before_year :: "nat \<Rightarrow> int" where
  "days_before_year y =
     (let p = int y - 1 in p * 365 + p div 4 - p div 100 + p div 400)"

definition days_before_month :: "nat \<Rightarrow> nat \<Rightarrow> int" where
  "days_before_month y m = int (sum_list (map (days_in_month y) [1..<m]))"

definition toordinal :: "datetime \<Rightarrow> int" where
  "toordinal dt = days_before_year (year dt) + days_before_month (year dt) (month dt) + int (day dt)"

definition valid_datetime :: "datetime \<Rightarrow> bool" where
  "valid_datetime dt \<longleftrightarrow>
     1 \<le> year dt \<and> year dt \<le> 9999 \<and> 1 \<le> month dt \<and> month dt \<le> 12 \<and>
     1 \<le> day dt \<and> day dt \<le> days_in_month (year dt) (month dt) \<and>
     hour dt < 24 \<and> minute dt < 60 \<and> second dt < 60 \<and> microsecond dt < 1000000"

text \<open>The order of calendar dates.\<close>

definition date_less :: "datetime \<Rightarrow> datetime \<Rightarrow> bool" where
  "date_less a b \<longleftrightarrow>
     year a < year b \<or> (year a = year b \<and>
       (month a < month b \<or> (month a = month b \<and> day a < day b)))"

text \<open>The order of times of day.\<close>

definition clock_less :: "datetime \<Rightarrow> datetime \<Rightarrow> bool" where
  "clock_less a b \<longleftrightarrow>
     hour a < hour b \<or> (hour a = hour b \<and>
       (minute a < minute b \<or> (minute a = minute b \<and>
         (second a < second b \<or> (second a = second b \<and> microsecond a < microsecond b)))))"

definition us_per_day :: int where
  "us_per_day = 86400000000"

definition micros :: "datetime \<Rightarrow> int" where
  "micros dt =
     toordinal dt * us_per_day
       + ((int (hour dt) * 60 + int (minute dt)) * 60 + int (second dt)) * 1000000
       + int (microsecond dt)"

text \<open>The microseconds since midnight.\<close>

definition time_of_day :: "datetime \<Rightarrow> int" where
  "time_of_day dt =
     ((int (hour dt) * 60 + int (minute dt)) * 60 + int (second dt)) * 1000000
       + int (microsecond dt)"

text \<open>
  What \<^verbatim>\<open>datetime.fromisoformat\<close> returns: the calendar fields and the UTC offset in
  microseconds, \<open>None\<close> for a naive value (\<^verbatim>\<open>tzinfo is None\<close>).
\<close>

record parsed =
  naive :: datetime
  utcoffset :: "int option"

text \<open>\<^verbatim>\<open>if d.tzinfo is None: d = d.replace(tzinfo=timezone.utc)\<close>, then the instant in UTC.\<close>

definition instant :: "parsed \<Rightarrow> int" where
  "instant p = micros (naive p) - (case utcoffset p of None \<Rightarrow> 0 | Some off \<Rightarrow> off)"

text \<open>\<^verbatim>\<open>(now - d).days\<close>: a \<^verbatim>\<open>timedelta\<close> is normalised with a non-negative remainder,
  so \<^verbatim>\<open>.days\<close> is the floor of the difference in days.\<close>

definition days_since :: "datetime \<Rightarrow> parsed \<Rightarrow> int" where
  "days_since now p = (micros now - instant p) div us_per_day"

section \<open>Rendering and reading timestamps\<close>

definition digit :: "nat \<Rightarrow> char" where
  "digit n = char_of (48 + n)"

text \<open>\<^verbatim>\<open>"%0kd" % n\<close> for \<open>n < 10 ^ k\<close>, which holds for every field of a valid value.\<close>

fun pad :: "nat \<Rightarrow> nat \<Rightarrow> string" where
  "pad 0 n = []"
| "pad (Suc k) n = pad k (n div 10) @ [digit (n mod 10)]"

text \<open>\<^verbatim>\<open>d.strftime("%Y-%m-%d")\<close>, which is also \<^verbatim>\<open>d.isoformat()[:10]\<close>.\<close>

definition date_string :: "datetime \<Rightarrow> string" where
  "date_string dt = pad 4 (year dt) @ ''-'' @ pad 2 (month dt) @ ''-'' @ pad 2 (day dt)"

definition clock_string :: "datetime \<Rightarrow> string" where
  "clock_string dt = pad 2 (hour dt) @ '':'' @ pad 2 (minute dt) @ '':'' @ pad 2 (second dt)"

text \<open>\<^verbatim>\<open>d.isoformat()\<close> of a value with \<^verbatim>\<open>tzinfo=timezone.utc\<close>: the fraction is left
  out when the microsecond is 0.\<close>

definition fraction :: "nat \<Rightarrow> string" where
  "fraction us = (if us = 0 then [] else ''.'' @ pad 6 us)"

definition isoformat :: "datetime \<Rightarrow> string" where
  "isoformat dt =
     date_string dt @ ''T'' @ clock_string dt @ fraction (microsecond dt) @ ''+00:00''"

text \<open>
  An instance of the standard library parser, used to evaluate the handlers on concrete
  strings: it accepts \<^verbatim>\<open>YYYY-MM-DD\<close> and \<^verbatim>\<open>YYYY-MM-DD*HH:MM:SS[.fff[fff]][(+|-)HH:MM]\<close>
  (\<^verbatim>\<open>*\<close> any one character), forms that every version of \<^verbatim>\<open>datetime.fromisoformat\<close>
  accepts with this meaning, and rejects every other string with \<open>ValueError\<close>. The theorems
  about the handlers are stated for an arbitrary parser.
\<close>

definition is_digit :: "char \<Rightarrow> bool" where
  "is_digit c \<longleftrightarrow> CHR ''0'' \<le> c \<and> c \<le> CHR ''9''"

definition parse_digits :: "string \<Rightarrow> nat option" where
  "parse_digits s =
     (if s \<noteq> [] \<and> list_all is_digit s
      then Some (foldl (\<lambda>a c. a * 10 + (of_char c - 48)) 0 s) else None)"

definition parse_date :: "string \<Rightarrow> (nat \<times> nat \<times> nat) option" where
  "parse_date s =
     (if length s = 10 \<and> s ! 4 = CHR ''-'' \<and> s ! 7 = CHR ''-''
      then (case (parse_digits (take 4 s), parse_digits (take 2 (drop 5 s)), parse_digits (drop 8 s)) of
              (Some y, Some m, Some d) \<Rightarrow>
                if 1 \<le> y \<and> 1 \<le> m \<and> m \<le> 12 \<and> 1 \<le> d \<and> d \<le> days_in_month y m
                then Some (y, m, d) else None
            | _ \<Rightarrow> None)
      else None)"

definition parse_fraction :: "string \<Rightarrow> nat option" where
  "parse_fraction f =
     (if f = [] then Some 0
      else if hd f = CHR ''.'' \<and> length f = 7 then parse_digits (tl f)
      else if hd f = CHR ''.'' \<and> length f = 4 then map_option (\<lambda>n. n * 1000) (parse_digits (tl f))
      else None)"

definition parse_clock :: "string \<Rightarrow> (nat \<times> nat \<times> nat \<times> nat) option" where
  "parse_clock t =
     (if 8 \<le> length t \<and> t ! 2 = CHR '':'' \<and> t ! 5 = CHR '':''
      then (case (parse_digits (take 2 t), parse_digits (take 2 (drop 3 t)),
                  parse_digits (take 2 (drop 6 t)), parse_fraction (drop 8 t)) of
              (Some h, Some mi, Some s, Some us) \<Rightarrow>
                if h < 24 \<and> mi < 60 \<and> s < 60 then Some (h, mi, s, us) else None
            | _ \<Rightarrow> None)
      else None)"

definition parse_offset :: "string \<Rightarrow> int option option" where
  "parse_offset z =
     (if z = [] then Some None
      else if length z = 6 \<and> z ! 3 = CHR '':''
      then (case (parse_digits (take 2 (tl z)), parse_digits (drop 4 z)) of
              (Some h, Some m) \<Rightarrow>
                if h < 24 \<and> m < 60
                then Some (Some ((if hd z = CHR ''-'' then - 1 else 1)
                                   * (int h * 3600 + int m * 60) * 1000000))
                else None
            | _ \<Rightarrow> None)
      else None)"

definition fromisoformat_strict :: "string \<Rightarrow> py_error + parsed" where
  "fromisoformat_strict s =
     (case parse_date (take 10 s) of
        None \<Rightarrow> Inl ValueError
      | Some (y, m, d) \<Rightarrow>
          if length s = 10
          then Inr \<lparr> naive = \<lparr> year = y, month = m, day = d, hour = 0, minute = 0,
                                 second = 0, microsecond = 0 \<rparr>, utcoffset = None \<rparr>
          else
            let t = drop 11 s;
                is_sign = (\<lambda>c. c = CHR ''+'' \<or> c = CHR ''-'')
            in (case (parse_clock (takeWhile (\<lambda>c. \<not> is_sign c) t),
                      parse_offset (dropWhile (\<lambda>c. \<not> is_sign c) t)) of
                  (Some (h, mi, sec, us), Some off) \<Rightarrow>
                    Inr \<lparr> naive = \<lparr> year = y, month = m, day = d, hour = h, minute = mi,
                                       second = sec, microsecond = us \<rparr>, utcoffset = off \<rparr>
                | _ \<Rightarrow> Inl ValueError))"

section \<open>Documents\<close>

record event =
  event_id :: string
  user_id :: string
  event_type :: string
  event_context :: string
  intensity :: int
  created_at :: string

text \<open>
  A user document. The handlers read the three smoking parameters with
  \<^verbatim>\<open>user.get(key, default)\<close>, so a missing key is \<open>None\<close> here. \<^verbatim>\<open>cost_per_pack\<close> is a
  Python float; it is modelled by an exact rational, so rounding errors of binary floating
  point and the values infinity and NaN are outside the model.
\<close>

record user =
  uid :: string
  email :: "string option"
  telegram_id :: "int option"
  user_name :: string
  cigarettes_per_day :: "int option"
  cost_per_pack :: "rat option"
  cigarettes_per_pack :: "int option"
  quit_date :: "string option"

record summary =
  days_smoke_free :: int
  current_streak :: int
  cigarettes_avoided :: int
  money_saved :: rat
  summary_quit_date :: "string option"

section \<open>Progress summary\<close>

text \<open>\<^verbatim>\<open>s.replace("Z", "+00:00")\<close>\<close>

definition replace_Z :: "string \<Rightarrow> string" where
  "replace_Z s = concat (map (\<lambda>c. if c = CHR ''Z'' then ''+00:00'' else [c]) s)"

text \<open>\<^verbatim>\<open>round(x, 2)\<close> on an exact value: to the nearest hundredth, a tie to the even one.\<close>

definition round2 :: "rat \<Rightarrow> rat" where
  "round2 x =
     (let y = x * 100; f = \<lfloor>y\<rfloor>; r = y - of_int f
      in of_int (if r < 1 / 2 then f else if 1 / 2 < r then f + 1
                 else if even f then f else f + 1) / 100)"

text \<open>\<^verbatim>\<open>db.events.find({"user_id": user["id"], "event_type": "cigarette"})\<close> with
  \<^verbatim>\<open>.sort("created_at", -1).to_list(100)\<close>: the stored strings are compared byte by byte;
  the order the store gives to equal strings is not used by the handler.\<close>

definition cigarette_of :: "string \<Rightarrow> event \<Rightarrow> bool" where
  "cigarette_of u e \<longleftrightarrow> user_id e = u \<and> event_type e = ''cigarette''"

definition find_cigarettes :: "string \<Rightarrow> event list \<Rightarrow> event list" where
  "find_cigarettes u events =
     take 100 (rev (sort_key created_at (filter (cigarette_of u) events)))"

text \<open>
  \<^verbatim>\<open>get_progress_summary\<close>, in the three steps of its body. \<open>fromisoformat\<close> is the parser
  of the Python standard library; \<open>now1\<close> and \<open>now2\<close> are the two readings of the clock,
  \<open>events\<close> is the collection \<^verbatim>\<open>db.events\<close>.

  First step: \<^verbatim>\<open>if quit_date: ... days_smoke_free = (now - quit_datetime).days\<close>,
  \<^verbatim>\<open>else: days_smoke_free = 0\<close>. Python's \<^verbatim>\<open>if quit_date\<close> is false for \<^verbatim>\<open>None\<close> and for
  the empty string.
\<close>

definition smoke_free_days ::
  "(string \<Rightarrow> py_error + parsed) \<Rightarrow> datetime \<Rightarrow> user \<Rightarrow> py_error + int" where
  "smoke_free_days fromisoformat now1 usr =
     (case quit_date usr of
        None \<Rightarrow> Inr 0
      | Some q \<Rightarrow>
          if q = [] then Inr 0
          else (case fromisoformat (if CHR ''Z'' \<in> set q then replace_Z q else q) of
                  Inl err \<Rightarrow> Inl err
                | Inr quit_datetime \<Rightarrow> Inr (days_since now1 quit_datetime)))"

text \<open>Third step: \<^verbatim>\<open>current_streak = days_smoke_free\<close>, replaced when the query for the
  user's cigarette events returns one by the days since \<^verbatim>\<open>events[0]\<close>.\<close>

definition streak_days ::
  "(string \<Rightarrow> py_error + parsed) \<Rightarrow> datetime \<Rightarrow> user \<Rightarrow> event list \<Rightarrow> int \<Rightarrow> py_error + int" where
  "streak_days fromisoformat now2 usr events smoke_free =
     (case find_cigarettes (uid usr) events of
        [] \<Rightarrow> Inr smoke_free
      | e # _ \<Rightarrow>
          (case fromisoformat (replace_Z (created_at e)) of
             Inl err \<Rightarrow> Inl err
           | Inr last_smoke \<Rightarrow> Inr (days_since now2 last_smoke)))"

text \<open>The defaults of \<^verbatim>\<open>user.get("cigarettes_per_day", 10)\<close>,
  \<^verbatim>\<open>user.get("cost_per_pack", 10.0)\<close> and \<^verbatim>\<open>user.get("cigarettes_per_pack", 20)\<close>.\<close>

definition per_day :: "user \<Rightarrow> int" where
  "per_day usr = (case cigarettes_per_day usr of None \<Rightarrow> 10 | Some n \<Rightarrow> n)"

definition pack_cost :: "user \<Rightarrow> rat" where
  "pack_cost usr = (case cost_per_pack usr of None \<Rightarrow> 10 | Some c \<Rightarrow> c)"

definition per_pack :: "user \<Rightarrow> int" where
  "per_pack usr = (case cigarettes_per_pack usr of None \<Rightarrow> 20 | Some n \<Rightarrow> n)"

text \<open>The handler: the division raises before the events are read.\<close>

definition get_progress_summary ::
  "(string \<Rightarrow> py_error + parsed) \<Rightarrow> datetime \<Rightarrow> datetime \<Rightarrow> user \<Rightarrow> event list
     \<Rightarrow> py_error + summary" where
  "get_progress_summary fromisoformat now1 now2 usr events =
     (case smoke_free_days fromisoformat now1 usr of
        Inl err \<Rightarrow> Inl err
      | Inr smoke_free \<Rightarrow>
          let avoided = smoke_free * per_day usr
          in if per_pack usr = 0 then Inl ZeroDivisionError
             else
               let cost_per_cigarette = pack_cost usr / of_int (per_pack usr);
                   money = of_int avoided * cost_per_cigarette
               in (case streak_days fromisoformat now2 usr events smoke_free of
                     Inl err \<Rightarrow> Inl err
                   | Inr streak \<Rightarrow>
                       Inr \<lparr> days_smoke_free = max 0 smoke_free,
                             current_streak = max 0 streak,
                             cigarettes_avoided = max 0 avoided,
                             money_saved = round2 (max 0 money),
                             summary_quit_date = quit_date usr \<rparr>))"

section \<open>Daily and weekly buckets\<close>

text \<open>
  \<^verbatim>\<open>d - timedelta(days=k)\<close> keeps the time of day and moves the calendar date back by \<open>k\<close>
  days; it raises \<open>OverflowError\<close> when the result would lie before year 1.
\<close>

definition prev_day :: "datetime \<Rightarrow> datetime" where
  "prev_day dt =
     (if 1 < day dt then dt\<lparr>day := day dt - 1\<rparr>
      else if 1 < month dt
        then dt\<lparr>month := month dt - 1, day := days_in_month (year dt) (month dt - 1)\<rparr>
      else dt\<lparr>year := year dt - 1, month := 12, day := 31\<rparr>)"

fun minus_days :: "nat \<Rightarrow> datetime \<Rightarrow> datetime" where
  "minus_days 0 dt = dt"
| "minus_days (Suc k) dt = minus_days k (prev_day dt)"

definition sub_days :: "datetime \<Rightarrow> nat \<Rightarrow> py_error + datetime" where
  "sub_days dt k = (if toordinal dt - int k < 1 then Inl OverflowError else Inr (minus_days k dt))"

text \<open>\<^verbatim>\<open>day.replace(hour=0, minute=0, second=0, microsecond=0)\<close> and
  \<^verbatim>\<open>day.replace(hour=23, minute=59, second=59, microsecond=999999)\<close>\<close>

definition day_start :: "datetime \<Rightarrow> datetime" where
  "day_start dt = dt\<lparr>hour := 0, minute := 0, second := 0, microsecond := 0\<rparr>"

definition day_end :: "datetime \<Rightarrow> datetime" where
  "day_end dt = dt\<lparr>hour := 23, minute := 59, second := 59, microsecond := 999999\<rparr>"

text \<open>\<^verbatim>\<open>d.strftime("%a")\<close> (in the C locale) and \<^verbatim>\<open>d.strftime("%m/%d")\<close>;
  ordinal 1 is a Monday.\<close>

definition day_name_of :: "datetime \<Rightarrow> string" where
  "day_name_of dt =
     [''Mon'', ''Tue'', ''Wed'', ''Thu'', ''Fri'', ''Sat'', ''Sun'']
       ! nat ((toordinal dt + 6) mod 7)"

definition month_day_string :: "datetime \<Rightarrow> string" where
  "month_day_string dt = pad 2 (month dt) @ ''/'' @ pad 2 (day dt)"

text \<open>
  \<^verbatim>\<open>db.events.find({"user_id": u, "created_at": {"$gte": lo, "$lte": hi}}).to_list(1000)\<close>:
  the events of the user whose stored string lies between the two bounds, compared byte by
  byte, in the order of the collection, at most 1000 of them.
\<close>

definition in_window :: "string \<Rightarrow> string \<Rightarrow> string \<Rightarrow> event \<Rightarrow> bool" where
  "in_window u lo hi e \<longleftrightarrow> user_id e = u \<and> lo \<le> created_at e \<and> created_at e \<le> hi"

definition find_window :: "string \<Rightarrow> string \<Rightarrow> string \<Rightarrow> event list \<Rightarrow> event list" where
  "find_window u lo hi events = take 1000 (filter (in_window u lo hi) events)"

text \<open>\<^verbatim>\<open>sum(1 for e in events if e["event_type"] == t)\<close>\<close>

definition count_type :: "string \<Rightarrow> event list \<Rightarrow> nat" where
  "count_type t events = length (filter (\<lambda>e. event_type e = t) events)"

record tally =
  cigarettes :: nat
  urges :: nat
  resisted :: nat

record day_bucket = tally +
  date :: string
  day_name :: string

record week_bucket = tally +
  week :: string
  start_date :: string
  end_date :: string

text \<open>A \<^verbatim>\<open>for\<close> loop that appends one result per round and stops at the first exception.\<close>

fun collect :: "('e + 'a) list \<Rightarrow> 'e + 'a list" where
  "collect [] = Inr []"
| "collect (x # xs) =
     (case x of
        Inl err \<Rightarrow> Inl err
      | Inr v \<Rightarrow> (case collect xs of Inl err \<Rightarrow> Inl err | Inr vs \<Rightarrow> Inr (v # vs)))"

text \<open>The body of the loop of \<^verbatim>\<open>get_weekly_progress\<close> once \<^verbatim>\<open>day\<close> is known: the query
  for the day and the bucket appended to \<^verbatim>\<open>days\<close>.\<close>

definition day_bucket_of :: "user \<Rightarrow> event list \<Rightarrow> datetime \<Rightarrow> day_bucket" where
  "day_bucket_of usr events d =
     (let found = find_window (uid usr) (isoformat (day_start d)) (isoformat (day_end d)) events
      in \<lparr> cigarettes = count_type ''cigarette'' found,
            urges = count_type ''urge'' found,
            resisted = count_type ''resisted'' found,
            date = date_string d,
            day_name = day_name_of d \<rparr>)"

text \<open>Round \<open>i\<close> of the loop: \<^verbatim>\<open>day = now - timedelta(days=6-i)\<close>.\<close>

definition weekly_round :: "datetime \<Rightarrow> user \<Rightarrow> event list \<Rightarrow> nat \<Rightarrow> py_error + day_bucket" where
  "weekly_round now usr events i =
     (case sub_days now (6 - i) of
        Inl err \<Rightarrow> Inl err
      | Inr d \<Rightarrow> Inr (day_bucket_of usr events d))"

definition get_weekly_progress :: "datetime \<Rightarrow> user \<Rightarrow> event list \<Rightarrow> py_error + day_bucket list" where
  "get_weekly_progress now usr events = collect (map (weekly_round now usr events) [0..<7])"

text \<open>\<^verbatim>\<open>str(n)\<close> for a natural number.\<close>

fun str_nat :: "nat \<Rightarrow> string" where
  "str_nat n = (if n < 10 then [digit n] else str_nat (n div 10) @ [digit (n mod 10)])"

declare str_nat.simps [simp del]

text \<open>The body of the loop of \<^verbatim>\<open>get_monthly_progress\<close> once the two ends of the week
  are known.\<close>

definition week_bucket_of ::
  "user \<Rightarrow> event list \<Rightarrow> nat \<Rightarrow> datetime \<Rightarrow> datetime \<Rightarrow> week_bucket" where
  "week_bucket_of usr events i week_start week_end =
     (let found = find_window (uid usr) (isoformat week_start) (isoformat week_end) events
      in \<lparr> cigarettes = count_type ''cigarette'' found,
            urges = count_type ''urge'' found,
            resisted = count_type ''resisted'' found,
            week = ''Week '' @ str_nat (4 - i),
            start_date = month_day_string week_start,
            end_date = month_day_string week_end \<rparr>)"

text \<open>Round \<open>i\<close> of the loop: \<^verbatim>\<open>week_end = now - timedelta(weeks=i)\<close>, which is \<open>7 * i\<close> days,
  and \<^verbatim>\<open>week_start = week_end - timedelta(days=7)\<close>.\<close>

definition monthly_round :: "datetime \<Rightarrow> user \<Rightarrow> event list \<Rightarrow> nat \<Rightarrow> py_error + week_bucket" where
  "monthly_round now usr events i =
     (case sub_days now (7 * i) of
        Inl err \<Rightarrow> Inl err
      | Inr week_end \<Rightarrow>
          (case sub_days week_end 7 of
             Inl err \<Rightarrow> Inl err
           | Inr week_start \<Rightarrow> Inr (week_bucket_of usr events i week_start week_end)))"

definition get_monthly_progress :: "datetime \<Rightarrow> user \<Rightarrow> event list \<Rightarrow> py_error + week_bucket list" where
  "get_monthly_progress now usr events =
     map_sum id rev (collect (map (monthly_round now usr events) [0..<4]))"

text \<open>The window of one round of \<^verbatim>\<open>get_weekly_progress\<close>, as a property of a stored string.\<close>

definition in_day :: "datetime \<Rightarrow> string \<Rightarrow> bool" where
  "in_day d s \<longleftrightarrow> isoformat (day_start d) \<le> s \<and> s \<le> isoformat (day_end d)"

section \<open>Trigger patterns\<close>

record trigger =
  trigger_id :: string
  trigger_user_id :: string
  trigger_type :: string
  description :: string
  location :: string
  trigger_created_at :: string

text \<open>
  \<^verbatim>\<open>type_counts[k] = type_counts.get(k, 0) + 1\<close> on a Python dictionary, which keeps its keys
  in the order of their first insertion: an association list.
\<close>

fun bump :: "string \<Rightarrow> (string \<times> nat) list \<Rightarrow> (string \<times> nat) list" where
  "bump k [] = [(k, 1)]"
| "bump k ((k', c) # kvs) = (if k = k' then (k', c + 1) # kvs else (k', c) # bump k kvs)"

text \<open>The loop \<^verbatim>\<open>for t in triggers\<close>.\<close>

definition count_by_type :: "trigger list \<Rightarrow> (string \<times> nat) list" where
  "count_by_type triggers = foldl (\<lambda>type_counts t. bump (trigger_type t) type_counts) [] triggers"

text \<open>\<^verbatim>\<open>db.triggers.find({"user_id": user["id"]}).to_list(1000)\<close>\<close>

definition find_triggers :: "string \<Rightarrow> trigger list \<Rightarrow> trigger list" where
  "find_triggers u triggers = take 1000 (filter (\<lambda>t. trigger_user_id t = u) triggers)"

record patterns =
  total_triggers :: nat
  by_type :: "(string \<times> nat) list"
  most_common :: "string option"
  top_triggers :: "(string \<times> nat) list"

text \<open>
  \<^verbatim>\<open>get_trigger_patterns\<close>. \<^verbatim>\<open>sorted(items, key=lambda x: x[1], reverse=True)\<close> is stable:
  items with equal counts keep their order, as a stable sort on the negated count does.
\<close>

definition get_trigger_patterns :: "user \<Rightarrow> trigger list \<Rightarrow> patterns" where
  "get_trigger_patterns usr triggers =
     (let found = find_triggers (uid usr) triggers;
          type_counts = count_by_type found;
          sorted_types = sort_key (\<lambda>(k, c). - int c) type_counts
      in \<lparr> total_triggers = length found,
            by_type = type_counts,
            most_common = (case sorted_types of [] \<Rightarrow> None | (k, c) # _ \<Rightarrow> Some k),
            top_triggers = take 5 sorted_types \<rparr>)"

text \<open>The number of records of one type in a list of trigger records, and the count an
  association list holds for a key (0 when the key is absent).\<close>

definition occurrences :: "string \<Rightarrow> trigger list \<Rightarrow> nat" where
  "occurrences k ts = length (filter (\<lambda>t. trigger_type t = k) ts)"

definition tally_of :: "(string \<times> nat) list \<Rightarrow> string \<Rightarrow> nat" where
  "tally_of m k = (case map_of m k of None \<Rightarrow> 0 | Some c \<Rightarrow> c)"

section \<open>Concrete inputs\<close>

text \<open>The inputs at which the theorems below are evaluated.\<close>

definition example_now :: datetime where
  "example_now = \<lparr> year = 2026, month = 11, day = 3, hour = 12, minute = 0, second = 5,
                     microsecond = 0 \<rparr>"

definition example_user :: user where
  "example_user = \<lparr> uid = ''u1'', email = Some ''a@b.c'', telegram_id = None, user_name = ''A'',
                      cigarettes_per_day = Some 10, cost_per_pack = Some 10,
                      cigarettes_per_pack = Some 20, quit_date = Some ''2026-10-24'' \<rparr>"

definition cigarette_at :: "string \<Rightarrow> event" where
  "cigarette_at t = \<lparr> event_id = ''e1'', user_id = ''u1'', event_type = ''cigarette'',
                       event_context = [], intensity = 5, created_at = t \<rparr>"

definition trigger_of :: "string \<Rightarrow> trigger" where
  "trigger_of k = \<lparr> trigger_id = ''t1'', trigger_user_id = ''u1'', trigger_type = k,
                     description = [], location = [], trigger_created_at = ''2026-11-03T08:00:00+00:00'' \<rparr>"

section \<open>The calendar\<close>


lemma days_before_year_Suc:
  assumes "1 \<le> y"
  shows "days_before_year (Suc y) = days_before_year y + (if is_leap y then 366 else 365)"
proof -
  from assms obtain n where y: "y = Suc n" by (cases y) simp_all
  have a: "Suc n mod 4 = 0" if "Suc n mod 100 = 0"
  proof -
    have "(4::nat) dvd 100" by simp
    moreover from that have "100 dvd Suc n" by (simp only: dvd_eq_mod_eq_0)
    ultimately have "4 dvd Suc n" by (rule dvd_trans)
    then show ?thesis by (simp only: dvd_eq_mod_eq_0)
  qed
  have b: "Suc n mod 100 = 0" if "Suc n mod 400 = 0"
  proof -
    have "(100::nat) dvd 400" by simp
    moreover from that have "400 dvd Suc n" by (simp only: dvd_eq_mod_eq_0)
    ultimately have "100 dvd Suc n" by (rule dvd_trans)
    then show ?thesis by (simp only: dvd_eq_mod_eq_0)
  qed
  have 1: "days_before_year (Suc (Suc n))
        = int (Suc n) * 365 + int (Suc n div 4) - int (Suc n div 100) + int (Suc n div 400)"
    unfolding days_before_year_def Let_def by (simp add: zdiv_int)
  have 2: "days_before_year (Suc n)
        = int n * 365 + int (n div 4) - int (n div 100) + int (n div 400)"
    unfolding days_before_year_def Let_def by (simp add: zdiv_int)
  show ?thesis
    unfolding y 1 2 is_leap_def using a b
    by (simp add: div_Suc)
qed

lemma days_before_month_Suc:
  "1 \<le> m \<Longrightarrow> days_before_month y (Suc m) = days_before_month y m + int (days_in_month y m)"
  unfolding days_before_month_def by simp

lemma days_before_month_1: "days_before_month y (Suc 0) = 0"
  unfolding days_before_month_def by simp

lemma upt_1_13: "[1..<13] = [1, 2, 3, 4, 5, 6, 7, 8, 9, 10, 11, 12::nat]"
  by code_simp

lemma days_before_month_13:
  "days_before_month y 13 = (if is_leap y then 366 else 365)"
  unfolding days_before_month_def upt_1_13 by (simp add: days_in_month_def)

lemma days_before_month_mono:
  "1 \<le> m \<Longrightarrow> m \<le> n \<Longrightarrow> days_before_month y m \<le> days_before_month y n"
proof (induction n)
  case 0
  then show ?case by simp
next
  case (Suc n)
  show ?case
  proof (cases "m = Suc n")
    case True
    then show ?thesis by simp
  next
    case False
    with Suc.prems have mn: "m \<le> n" by simp
    with Suc.prems have "1 \<le> n" by simp
    from days_before_month_Suc [OF this, of y] Suc.IH [OF Suc.prems(1) mn]
    show ?thesis by simp
  qed
qed

lemma days_in_month_pos: "1 \<le> days_in_month y m"
  unfolding days_in_month_def by simp

lemma days_before_year_mono: "1 \<le> y \<Longrightarrow> y \<le> z \<Longrightarrow> days_before_year y \<le> days_before_year z"
proof (induction z)
  case 0
  then show ?case by simp
next
  case (Suc z)
  show ?case
  proof (cases "y = Suc z")
    case True
    then show ?thesis by simp
  next
    case False
    with Suc.prems have yz: "y \<le> z" by simp
    with Suc.prems have "1 \<le> z" by simp
    from Suc.IH [OF Suc.prems(1) yz] days_before_year_Suc [OF this] show ?thesis
      by (simp split: if_splits)
  qed
qed

lemma yday_bounds:
  assumes "1 \<le> m" "m \<le> 12" "1 \<le> d" "d \<le> days_in_month y m"
  shows "1 \<le> days_before_month y m + int d"
    and "days_before_month y m + int d \<le> (if is_leap y then 366 else 365)"
proof -
  have "0 \<le> days_before_month y m" unfolding days_before_month_def by simp
  with assms(3) show "1 \<le> days_before_month y m + int d" by simp
  have "days_before_month y m + int d \<le> days_before_month y (Suc m)"
    using days_before_month_Suc [OF assms(1), of y] assms(4) by simp
  also have "\<dots> \<le> days_before_month y 13"
    by (rule days_before_month_mono) (use assms in simp_all)
  finally show "days_before_month y m + int d \<le> (if is_leap y then 366 else 365)"
    unfolding days_before_month_13 .
qed



lemma toordinal_ge_1:
  assumes "valid_datetime dt"
  shows "days_before_year (year dt) + 1 \<le> toordinal dt"
    and "toordinal dt \<le> days_before_year (Suc (year dt))"
proof -
  from assms have v: "1 \<le> year dt" "1 \<le> month dt" "month dt \<le> 12" "1 \<le> day dt"
    "day dt \<le> days_in_month (year dt) (month dt)"
    unfolding valid_datetime_def by simp_all
  from yday_bounds [OF v(2-5)] days_before_year_Suc [OF v(1)]
  show "days_before_year (year dt) + 1 \<le> toordinal dt"
    and "toordinal dt \<le> days_before_year (Suc (year dt))"
    unfolding toordinal_def by simp_all
qed

lemma date_less_imp_toordinal_less:
  assumes "valid_datetime a" "valid_datetime b" "date_less a b"
  shows "toordinal a < toordinal b"
proof -
  from assms(1) have va: "1 \<le> year a" "1 \<le> month a" "month a \<le> 12" "1 \<le> day a"
    "day a \<le> days_in_month (year a) (month a)"
    unfolding valid_datetime_def by simp_all
  from assms(2) have vb: "1 \<le> year b" "1 \<le> month b" "month b \<le> 12" "1 \<le> day b"
    "day b \<le> days_in_month (year b) (month b)"
    unfolding valid_datetime_def by simp_all
  consider (y) "year a < year b"
    | (m) "year a = year b" "month a < month b"
    | (d) "year a = year b" "month a = month b" "day a < day b"
    using assms(3) unfolding date_less_def by blast
  then show ?thesis
  proof cases
    case y
    have "toordinal a \<le> days_before_year (Suc (year a))"
      by (rule toordinal_ge_1 [OF assms(1)])
    also have "\<dots> \<le> days_before_year (year b)"
      by (rule days_before_year_mono) (use y in simp_all)
    also have "\<dots> < toordinal b"
      using toordinal_ge_1(1) [OF assms(2)] by simp
    finally show ?thesis .
  next
    case m
    have "days_before_month (year a) (month a) + int (day a)
            \<le> days_before_month (year a) (Suc (month a))"
      using days_before_month_Suc [OF va(2), of "year a"] va(5) by simp
    also have "\<dots> \<le> days_before_month (year a) (month b)"
      by (rule days_before_month_mono) (use m in simp_all)
    also have "\<dots> < days_before_month (year a) (month b) + int (day b)"
      using vb(4) by simp
    finally show ?thesis unfolding toordinal_def m(1) by simp
  next
    case d
    then show ?thesis unfolding toordinal_def by simp
  qed
qed

lemma toordinal_less_iff:
  assumes "valid_datetime a" "valid_datetime b"
  shows "toordinal a < toordinal b \<longleftrightarrow> date_less a b"
proof
  assume less: "toordinal a < toordinal b"
  show "date_less a b"
  proof (rule ccontr)
    assume n: "\<not> date_less a b"
    then consider "date_less b a" | "year a = year b \<and> month a = month b \<and> day a = day b"
      unfolding date_less_def by (metis linorder_neqE_nat)
    then show False
    proof cases
      case 1
      from date_less_imp_toordinal_less [OF assms(2,1) this] less show False by simp
    next
      case 2
      then have "toordinal a = toordinal b" unfolding toordinal_def by simp
      with less show False by simp
    qed
  qed
next
  assume "date_less a b"
  with assms show "toordinal a < toordinal b" by (rule date_less_imp_toordinal_less)
qed

lemma toordinal_eq_iff:
  assumes "valid_datetime a" "valid_datetime b"
  shows "toordinal a = toordinal b \<longleftrightarrow> year a = year b \<and> month a = month b \<and> day a = day b"
proof
  assume eq: "toordinal a = toordinal b"
  have "\<not> date_less a b" "\<not> date_less b a"
    using toordinal_less_iff [OF assms] toordinal_less_iff [OF assms(2,1)] eq by simp_all
  then show "year a = year b \<and> month a = month b \<and> day a = day b"
    unfolding date_less_def by (metis linorder_neqE_nat)
next
  assume "year a = year b \<and> month a = month b \<and> day a = day b"
  then show "toordinal a = toordinal b" unfolding toordinal_def by simp
qed

lemma toordinal_first_day:
  assumes "valid_datetime dt"
  shows "1 \<le> toordinal dt"
    and "toordinal dt = 1 \<longleftrightarrow> year dt = 1 \<and> month dt = 1 \<and> day dt = 1"
proof -
  from assms have v: "1 \<le> year dt" "1 \<le> month dt" "month dt \<le> 12" "1 \<le> day dt"
    unfolding valid_datetime_def by simp_all
  have 0: "days_before_year 1 = 0" unfolding days_before_year_def by simp
  have 00: "days_before_year (Suc 0) = 0" unfolding days_before_year_def by simp
  have "days_before_year 1 \<le> days_before_year (year dt)"
    by (rule days_before_year_mono) (use v in simp_all)
  with toordinal_ge_1(1) [OF assms] 0 show "1 \<le> toordinal dt" by simp
  define f where "f = dt\<lparr>year := 1, month := 1, day := 1\<rparr>"
  have vf: "valid_datetime f"
    using assms unfolding f_def valid_datetime_def days_in_month_def by simp
  have "toordinal f = 1"
    unfolding f_def toordinal_def by (simp add: 00 days_before_month_1)
  with toordinal_eq_iff [OF assms vf]
  show "toordinal dt = 1 \<longleftrightarrow> year dt = 1 \<and> month dt = 1 \<and> day dt = 1"
    unfolding f_def by simp
qed

lemma prev_day_correct:
  assumes "valid_datetime dt" "1 < toordinal dt"
  shows "valid_datetime (prev_day dt)"
    and "toordinal (prev_day dt) = toordinal dt - 1"
proof -
  from assms(1) have v: "1 \<le> year dt" "year dt \<le> 9999" "1 \<le> month dt" "month dt \<le> 12"
    "1 \<le> day dt" "day dt \<le> days_in_month (year dt) (month dt)"
    "hour dt < 24" "minute dt < 60" "second dt < 60" "microsecond dt < 1000000"
    unfolding valid_datetime_def by simp_all
  consider (d) "1 < day dt" | (m) "day dt = 1" "1 < month dt"
    | (y) "day dt = 1" "month dt = 1" "1 < year dt"
    using v(1,3,5) toordinal_first_day(2) [OF assms(1)] assms(2)
    by (metis less_le_not_le linorder_neqE_nat order_le_less)
  then have "valid_datetime (prev_day dt) \<and> toordinal (prev_day dt) = toordinal dt - 1"
  proof cases
    case d
    then have "1 \<le> day dt - 1" "day dt - 1 \<le> days_in_month (year dt) (month dt)"
      "int (day dt - 1) = int (day dt) - 1"
      using v(6) by simp_all
    then show ?thesis using d v unfolding prev_day_def valid_datetime_def toordinal_def by simp
  next
    case m
    then have m1: "1 \<le> month dt - 1" by simp
    from days_before_month_Suc [OF m1, of "year dt"] m
    have "days_before_month (year dt) (month dt)
        = days_before_month (year dt) (month dt - 1)
          + int (days_in_month (year dt) (month dt - 1))" by simp
    moreover have "1 \<le> month dt - 1" "month dt - 1 \<le> 12"
      using m v(4) by simp_all
    ultimately show ?thesis
      using m v days_in_month_pos [of "year dt" "month dt - 1"]
      unfolding prev_day_def valid_datetime_def toordinal_def by simp
  next
    case y
    then have y1: "1 \<le> year dt - 1" by simp
    have "days_before_month (year dt - 1) 13
        = days_before_month (year dt - 1) 12 + int (days_in_month (year dt - 1) 12)"
      using days_before_month_Suc [of 12 "year dt - 1"] by simp
    then have "days_before_month (year dt - 1) 12 + 31 = (if is_leap (year dt - 1) then 366 else 365)"
      unfolding days_before_month_13 by (simp add: days_in_month_def)
    moreover from days_before_year_Suc [OF y1] y
    have "days_before_year (year dt) = days_before_year (year dt - 1)
        + (if is_leap (year dt - 1) then 366 else 365)" by simp
    moreover have "Suc 0 \<le> year dt - Suc 0" "year dt - Suc 0 \<le> 9999"
      using y(3) v(2) by simp_all
    ultimately show ?thesis
      using y v unfolding prev_day_def valid_datetime_def toordinal_def
      by (simp add: days_before_month_1 days_in_month_def)
  qed
  then show "valid_datetime (prev_day dt)" and "toordinal (prev_day dt) = toordinal dt - 1"
    by simp_all
qed

lemma prev_day_time:
  "hour (prev_day dt) = hour dt" "minute (prev_day dt) = minute dt"
  "second (prev_day dt) = second dt" "microsecond (prev_day dt) = microsecond dt"
  unfolding prev_day_def by simp_all

lemma minus_days_correct:
  assumes "valid_datetime dt" "int k < toordinal dt"
  shows "valid_datetime (minus_days k dt) \<and> toordinal (minus_days k dt) = toordinal dt - int k
       \<and> hour (minus_days k dt) = hour dt \<and> minute (minus_days k dt) = minute dt
       \<and> second (minus_days k dt) = second dt \<and> microsecond (minus_days k dt) = microsecond dt"
  using assms
proof (induction k arbitrary: dt)
  case 0
  then show ?case by simp
next
  case (Suc k)
  from Suc.prems have 1: "1 < toordinal dt" using of_nat_0_le_iff [of k] by simp
  note p = prev_day_correct [OF Suc.prems(1) 1]
  have "int k < toordinal (prev_day dt)" using p(2) Suc.prems(2) by simp
  from Suc.IH [OF p(1) this] p(2) show ?case by (simp add: prev_day_time)
qed

lemma sub_days_Inr:
  assumes "valid_datetime dt" "int k < toordinal dt"
  shows "sub_days dt k = Inr (minus_days k dt)"
  using assms unfolding sub_days_def by simp


section \<open>The order of rendered timestamps\<close>


lemma digit_less_iff: "a < 10 \<Longrightarrow> b < 10 \<Longrightarrow> digit a < digit b \<longleftrightarrow> a < b"
  unfolding digit_def less_char_def by simp

lemma digit_eq_iff: "a < 10 \<Longrightarrow> b < 10 \<Longrightarrow> digit a = digit b \<longleftrightarrow> a = b"
proof -
  assume ab: "a < 10" "b < 10"
  have "of_char (digit a) = 48 + a" "of_char (digit b) = 48 + b"
    using ab unfolding digit_def by simp_all
  then show ?thesis by (metis add_left_cancel)
qed

lemma length_pad [simp]: "length (pad k n) = k"
  by (induction k arbitrary: n) simp_all

lemma append_less_iff:
  "length a = length b \<Longrightarrow> a @ x < b @ y \<longleftrightarrow> a < b \<or> (a = b \<and> x < y)"
  for a b x y :: "'a::linorder list"
proof (induction a b rule: list_induct2)
  case Nil
  then show ?case by simp
next
  case (Cons p ps q qs)
  then show ?case by auto
qed

lemma snoc_less_iff:
  "length a = length b \<Longrightarrow> a @ [p] < b @ [q] \<longleftrightarrow> a < b \<or> (a = b \<and> p < q)"
  for a b :: "'a::linorder list"
  by (simp add: append_less_iff)

lemma pad_less_iff:
  "n < 10 ^ k \<Longrightarrow> m < 10 ^ k \<Longrightarrow> pad k n < pad k m \<longleftrightarrow> n < m"
proof (induction k arbitrary: n m)
  case 0
  then show ?case by simp
next
  case (Suc k)
  from Suc.prems have d: "n div 10 < 10 ^ k" "m div 10 < 10 ^ k"
    by (simp_all add: less_mult_imp_div_less mult.commute)
  have e: "pad k (n div 10) = pad k (m div 10) \<longleftrightarrow> n div 10 = m div 10"
    using Suc.IH [OF d] Suc.IH [OF d(2,1)] by (metis linorder_neqE_nat less_irrefl)
  have "pad (Suc k) n < pad (Suc k) m \<longleftrightarrow>
          n div 10 < m div 10 \<or> (n div 10 = m div 10 \<and> n mod 10 < m mod 10)"
    by (simp add: snoc_less_iff Suc.IH [OF d] e digit_less_iff)
  also have "\<dots> \<longleftrightarrow> n < m"
    by (metis div_le_mono leD leI mod_div_decomp nat_add_left_cancel_less nless_le)
  finally show ?case .
qed

lemma pad_eq_iff:
  assumes "n < 10 ^ k" "m < 10 ^ k"
  shows "pad k n = pad k m \<longleftrightarrow> n = m"
  using pad_less_iff [OF assms] pad_less_iff [OF assms(2,1)]
  by (metis linorder_neqE_nat less_irrefl)



lemma field_less_iff:
  assumes "n < 10 ^ k" "m < 10 ^ k"
  shows "pad k n @ x < pad k m @ y \<longleftrightarrow> n < m \<or> (n = m \<and> x < y)"
  by (simp add: append_less_iff pad_less_iff [OF assms] pad_eq_iff [OF assms])

lemma fraction_less_iff:
  assumes "a < 10 ^ 6" "b < 10 ^ 6"
  shows "fraction a @ ''+00:00'' < fraction b @ ''+00:00'' \<longleftrightarrow> a < b"
proof -
  have "pad 6 a @ ''+00:00'' < pad 6 b @ ''+00:00'' \<longleftrightarrow> a < b"
    using field_less_iff [OF assms, of "''+00:00''" "''+00:00''"] by simp
  then show ?thesis
    unfolding fraction_def by (simp del: pad.simps)
qed

lemma valid_fields:
  assumes "valid_datetime a"
  shows "year a < 10 ^ 4" "month a < 10 ^ 2" "day a < 10 ^ 2" "hour a < 10 ^ 2"
    "minute a < 10 ^ 2" "second a < 10 ^ 2" "microsecond a < 10 ^ 6"
proof -
  have "days_in_month (year a) (month a) \<le> 31" unfolding days_in_month_def by simp
  with assms show "year a < 10 ^ 4" "month a < 10 ^ 2" "day a < 10 ^ 2" "hour a < 10 ^ 2"
    "minute a < 10 ^ 2" "second a < 10 ^ 2" "microsecond a < 10 ^ 6"
    unfolding valid_datetime_def by simp_all
qed

lemma isoformat_fraction:
  "isoformat dt = pad 4 (year dt) @ CHR ''-'' # pad 2 (month dt) @ CHR ''-'' # pad 2 (day dt)
     @ CHR ''T'' # pad 2 (hour dt) @ CHR '':'' # pad 2 (minute dt) @ CHR '':'' # pad 2 (second dt)
     @ fraction (microsecond dt) @ ''+00:00''"
  unfolding isoformat_def date_string_def clock_string_def
  by (simp del: pad.simps)

lemma isoformat_less_fields:
  assumes "valid_datetime a" "valid_datetime b"
  shows "isoformat a < isoformat b \<longleftrightarrow>
     date_less a b \<or> (year a = year b \<and> month a = month b \<and> day a = day b \<and> clock_less a b)"
proof -
  note va = valid_fields [OF assms(1)] and vb = valid_fields [OF assms(2)]
  show ?thesis
    unfolding isoformat_fraction date_less_def clock_less_def
    unfolding field_less_iff [OF va(1) vb(1)] Cons_less_Cons
    unfolding field_less_iff [OF va(2) vb(2)] Cons_less_Cons
    unfolding field_less_iff [OF va(3) vb(3)] Cons_less_Cons
    unfolding field_less_iff [OF va(4) vb(4)] Cons_less_Cons
    unfolding field_less_iff [OF va(5) vb(5)] Cons_less_Cons
    unfolding field_less_iff [OF va(6) vb(6)] fraction_less_iff [OF va(7) vb(7)]
    by blast
qed



lemma micros_split: "micros dt = toordinal dt * us_per_day + time_of_day dt"
  unfolding micros_def time_of_day_def by simp

lemma time_of_day_bounds:
  assumes "valid_datetime dt"
  shows "0 \<le> time_of_day dt" "time_of_day dt < us_per_day"
  using assms unfolding valid_datetime_def time_of_day_def us_per_day_def by simp_all

lemma radix_less:
  fixes q q' r r' B :: int
  assumes "0 \<le> r" "r < B" "0 \<le> r'" "r' < B"
  shows "q * B + r < q' * B + r' \<longleftrightarrow> q < q' \<or> (q = q' \<and> r < r')"
proof -
  have step: "x * B + s < y * B + t" if "x < y" "s < B" "0 \<le> t" for x y s t :: int
  proof -
    from that(1) have "x + 1 \<le> y" by simp
    moreover have "0 \<le> B" using assms by simp
    ultimately have "(x + 1) * B \<le> y * B" by (rule mult_right_mono)
    then show ?thesis using that(2,3) by (simp add: algebra_simps)
  qed
  show ?thesis
  proof (cases q q' rule: linorder_cases)
    case less
    with step [OF less assms(2,3)] show ?thesis by simp
  next
    case equal
    then show ?thesis by simp
  next
    case greater
    with step [OF greater assms(4,1)] show ?thesis by simp
  qed
qed

lemma radix_eq:
  fixes q q' r r' B :: int
  assumes "0 \<le> r" "r < B" "0 \<le> r'" "r' < B"
  shows "q * B + r = q' * B + r' \<longleftrightarrow> q = q' \<and> r = r'"
  using radix_less [OF assms, of q q'] radix_less [OF assms(3,4,1,2), of q' q]
  by (metis less_irrefl linorder_neqE_linordered_idom)

lemma time_of_day_less_iff:
  assumes "valid_datetime a" "valid_datetime b"
  shows "time_of_day a < time_of_day b \<longleftrightarrow> clock_less a b"
proof -
  from assms have v:
    "minute a < 60" "second a < 60" "microsecond a < 1000000"
    "minute b < 60" "second b < 60" "microsecond b < 1000000"
    unfolding valid_datetime_def by simp_all
  have 1: "time_of_day a < time_of_day b \<longleftrightarrow>
      (int (hour a) * 60 + int (minute a)) * 60 + int (second a)
        < (int (hour b) * 60 + int (minute b)) * 60 + int (second b)
      \<or> ((int (hour a) * 60 + int (minute a)) * 60 + int (second a)
        = (int (hour b) * 60 + int (minute b)) * 60 + int (second b)
          \<and> int (microsecond a) < int (microsecond b))"
    unfolding time_of_day_def by (rule radix_less) (use v in simp_all)
  have 2: "(int (hour a) * 60 + int (minute a)) * 60 + int (second a)
        < (int (hour b) * 60 + int (minute b)) * 60 + int (second b) \<longleftrightarrow>
      int (hour a) * 60 + int (minute a) < int (hour b) * 60 + int (minute b)
      \<or> (int (hour a) * 60 + int (minute a) = int (hour b) * 60 + int (minute b)
          \<and> int (second a) < int (second b))"
    by (rule radix_less) (use v in simp_all)
  have 3: "int (hour a) * 60 + int (minute a) < int (hour b) * 60 + int (minute b) \<longleftrightarrow>
      int (hour a) < int (hour b) \<or> (int (hour a) = int (hour b) \<and> int (minute a) < int (minute b))"
    by (rule radix_less) (use v in simp_all)
  have 4: "int (hour a) * 60 + int (minute a) = int (hour b) * 60 + int (minute b) \<longleftrightarrow>
      hour a = hour b \<and> minute a = minute b"
    using radix_eq [of "int (minute a)" 60 "int (minute b)" "int (hour a)" "int (hour b)"] v(1,4)
    by simp
  have 5: "(int (hour a) * 60 + int (minute a)) * 60 + int (second a)
        = (int (hour b) * 60 + int (minute b)) * 60 + int (second b) \<longleftrightarrow>
      hour a = hour b \<and> minute a = minute b \<and> second a = second b"
    using radix_eq [of "int (second a)" 60 "int (second b)"
        "int (hour a) * 60 + int (minute a)" "int (hour b) * 60 + int (minute b)"] v(2,5) 4
    by simp
  show ?thesis
    unfolding 1 2 3 4 5 clock_less_def by auto
qed

lemma micros_less_iff:
  assumes "valid_datetime a" "valid_datetime b"
  shows "micros a < micros b \<longleftrightarrow>
     date_less a b \<or> (year a = year b \<and> month a = month b \<and> day a = day b \<and> clock_less a b)"
proof -
  have "micros a < micros b \<longleftrightarrow>
      toordinal a < toordinal b \<or> (toordinal a = toordinal b \<and> time_of_day a < time_of_day b)"
    unfolding micros_split
    by (rule radix_less) (simp_all add: time_of_day_bounds assms)
  then show ?thesis
    unfolding toordinal_less_iff [OF assms] toordinal_eq_iff [OF assms]
      time_of_day_less_iff [OF assms] by blast
qed

lemma isoformat_less_iff:
  assumes "valid_datetime a" "valid_datetime b"
  shows "isoformat a < isoformat b \<longleftrightarrow> micros a < micros b"
  unfolding isoformat_less_fields [OF assms] micros_less_iff [OF assms] ..

lemma isoformat_le_iff:
  assumes "valid_datetime a" "valid_datetime b"
  shows "isoformat a \<le> isoformat b \<longleftrightarrow> micros a \<le> micros b"
  using isoformat_less_iff [OF assms(2,1)] by (simp add: not_less [symmetric])


text \<open>Evaluating \<open>pad\<close> on numerals.\<close>

lemma pad_numeral:
  "pad (numeral k) n = pad (pred_numeral k) (n div 10) @ [digit (n mod 10)]"
proof -
  have "pad (numeral k) n = pad (Suc (pred_numeral k)) n" by (simp only: numeral_eq_Suc)
  then show ?thesis by (simp only: pad.simps)
qed

lemma pad_Suc_0: "pad (Suc 0) n = [digit (n mod 10)]"
  by simp

lemma digit_values:
  "digit 0 = CHR ''0''" "digit (Suc 0) = CHR ''1''" "digit 1 = CHR ''1''" "digit 2 = CHR ''2''"
  "digit 3 = CHR ''3''" "digit 4 = CHR ''4''" "digit 5 = CHR ''5''" "digit 6 = CHR ''6''"
  "digit 7 = CHR ''7''" "digit 8 = CHR ''8''" "digit 9 = CHR ''9''"
  by code_simp+

lemmas pad_eval = pad_numeral pad_Suc_0 digit_values

lemma pad_values:
  "pad 2 0 = ''00''" "pad 2 23 = ''23''" "pad 2 59 = ''59''" "pad 6 999999 = ''999999''"
  by (simp_all add: pad_eval del: pad.simps)


section \<open>Properties of the progress summary\<close>


text \<open>The handler returns a summary exactly when none of its three steps raises.\<close>

lemma summary_InrD:
  assumes "get_progress_summary P now1 now2 usr events = Inr s"
  obtains smoke_free streak where
    "smoke_free_days P now1 usr = Inr smoke_free"
    "per_pack usr \<noteq> 0"
    "streak_days P now2 usr events smoke_free = Inr streak"
    "s = \<lparr> days_smoke_free = max 0 smoke_free, current_streak = max 0 streak,
           cigarettes_avoided = max 0 (smoke_free * per_day usr),
           money_saved = round2 (max 0 (of_int (smoke_free * per_day usr)
                                         * (pack_cost usr / of_int (per_pack usr)))),
           summary_quit_date = quit_date usr \<rparr>"
proof -
  from assms obtain sf where sf: "smoke_free_days P now1 usr = Inr sf"
    unfolding get_progress_summary_def by (cases "smoke_free_days P now1 usr") simp_all
  from assms sf have pp: "per_pack usr \<noteq> 0"
    unfolding get_progress_summary_def Let_def by (simp split: if_splits)
  from assms sf pp obtain st where st: "streak_days P now2 usr events sf = Inr st"
    unfolding get_progress_summary_def Let_def
    by (cases "streak_days P now2 usr events sf") simp_all
  from assms sf pp st show thesis
    unfolding get_progress_summary_def Let_def
    by (intro that [of sf st]) simp_all
qed





lemma find_cigarettes_Nil:
  "find_cigarettes u events = [] \<longleftrightarrow> (\<forall>e\<in>set events. \<not> cigarette_of u e)"
proof -
  have "length (find_cigarettes u events) = min (length (filter (cigarette_of u) events)) 100"
    unfolding find_cigarettes_def by simp
  then have "length (find_cigarettes u events) = 0
        \<longleftrightarrow> length (filter (cigarette_of u) events) = 0"
    by linarith
  then have "find_cigarettes u events = [] \<longleftrightarrow> filter (cigarette_of u) events = []"
    by (simp only: length_0_conv)
  then show ?thesis by (simp only: filter_empty_conv)
qed

lemma find_cigarettes_Cons:
  assumes "find_cigarettes u events = e # rest"
  shows "e \<in> set events \<and> cigarette_of u e
       \<and> (\<forall>e'\<in>set events. cigarette_of u e' \<longrightarrow> created_at e' \<le> created_at e)"
proof -
  let ?xs = "filter (cigarette_of u) events"
  let ?ys = "sort_key created_at ?xs"
  from assms have "take 100 (rev ?ys) = e # rest" by (simp add: find_cigarettes_def)
  then obtain zs where zs: "rev ?ys = e # zs"
    by (cases "rev ?ys") simp_all
  then have ys: "?ys = rev zs @ [e]" by (simp add: rev_swap)
  have "e \<in> set ?ys" unfolding ys by simp
  then have mem: "e \<in> set ?xs" by simp
  have "sorted (map created_at ?ys)" by simp
  then have "\<forall>x\<in>set ?ys. created_at x \<le> created_at e"
    unfolding ys by (auto simp: sorted_append)
  then have "\<forall>x\<in>set ?xs. created_at x \<le> created_at e" by simp
  with mem show ?thesis by auto
qed

text \<open>
  C1, as the code has it. For every user whose profile has \<open>cigarettes_per_pack = 0\<close>,
  \<^verbatim>\<open>get_progress_summary\<close> returns no summary, so no \<open>money_saved\<close> at all: it leaves with
  the \<open>ZeroDivisionError\<close> of the division, which nothing in the handler catches, unless
  reading \<open>quit_date\<close> has raised before the division is reached.
\<close>

theorem zero_pack_raises:
  assumes "cigarettes_per_pack usr = Some 0"
  shows "get_progress_summary P now1 now2 usr events = Inl ZeroDivisionError
       \<or> (\<exists>err. smoke_free_days P now1 usr = Inl err
            \<and> get_progress_summary P now1 now2 usr events = Inl err)"
proof (cases "smoke_free_days P now1 usr")
  case (Inl err)
  then show ?thesis unfolding get_progress_summary_def by simp
next
  case (Inr sf)
  with assms show ?thesis unfolding get_progress_summary_def Let_def per_pack_def by simp
qed

text \<open>The example user with \<open>cigarettes_per_pack = 0\<close>: the quit date parses and the
  division raises.\<close>

theorem zero_pack_raises_witness:
  "cigarettes_per_pack (example_user\<lparr>cigarettes_per_pack := Some 0\<rparr>) = Some 0
   \<and> get_progress_summary fromisoformat_strict example_now example_now
        (example_user\<lparr>cigarettes_per_pack := Some 0\<rparr>) [] = Inl ZeroDivisionError"
proof -
  have h: "cigarettes_per_pack (example_user\<lparr>cigarettes_per_pack := Some 0\<rparr>) = Some 0"
    by simp
  have "smoke_free_days fromisoformat_strict example_now
          (example_user\<lparr>cigarettes_per_pack := Some 0\<rparr>) = Inr 10"
    by code_simp
  with zero_pack_raises [OF h, of fromisoformat_strict example_now example_now "[]"] h
  show ?thesis by simp
qed

text \<open>
  C1 as the claim states it fails at this user: the handler leaves with the raw
  \<open>ZeroDivisionError\<close>, not with an error it raised itself (an \<open>HTTPException\<close>).
\<close>

theorem zero_pack_counterexample:
  "get_progress_summary fromisoformat_strict example_now example_now
        (example_user\<lparr>cigarettes_per_pack := Some 0\<rparr>) [] = Inl ZeroDivisionError
   \<and> \<not> (\<exists>code detail. get_progress_summary fromisoformat_strict example_now example_now
        (example_user\<lparr>cigarettes_per_pack := Some 0\<rparr>) [] = Inl (HTTPException code detail))"
proof -
  have "get_progress_summary fromisoformat_strict example_now example_now
        (example_user\<lparr>cigarettes_per_pack := Some 0\<rparr>) [] = Inl ZeroDivisionError"
    by code_simp
  then show ?thesis by simp
qed




text \<open>
  C2, as the code has it. Whenever \<^verbatim>\<open>get_progress_summary\<close> returns a summary: if the user
  has a cigarette event, \<open>current_streak\<close> is the floor of the days from the timestamp of the
  event with the greatest stored \<open>created_at\<close> to the clock, but never less than 0, whatever
  \<open>quit_date\<close> is; among events stamped by \<^verbatim>\<open>isoformat\<close> that event is the most recent one.
  If the user has no cigarette event, \<open>current_streak\<close> equals \<open>days_smoke_free\<close>.
\<close>

theorem current_streak_latest_cigarette:
  assumes "get_progress_summary P now1 now2 usr events = Inr s"
  shows "if \<exists>e\<in>set events. cigarette_of (uid usr) e
         then \<exists>e\<in>set events. \<exists>t. cigarette_of (uid usr) e
              \<and> (\<forall>e'\<in>set events. cigarette_of (uid usr) e' \<longrightarrow> created_at e' \<le> created_at e)
              \<and> (\<forall>e'\<in>set events. \<forall>a b. cigarette_of (uid usr) e'
                     \<and> valid_datetime a \<and> created_at e' = isoformat a
                     \<and> valid_datetime b \<and> created_at e = isoformat b
                   \<longrightarrow> micros a \<le> micros b)
              \<and> P (replace_Z (created_at e)) = Inr t
              \<and> current_streak s = max 0 (days_since now2 t)
         else current_streak s = days_smoke_free s"
proof -
  from assms obtain sf st where
    st: "streak_days P now2 usr events sf = Inr st"
    and s: "current_streak s = max 0 st" "days_smoke_free s = max 0 sf"
    by (elim summary_InrD) simp
  show ?thesis
  proof (cases "find_cigarettes (uid usr) events")
    case Nil
    then have "\<not> (\<exists>e\<in>set events. cigarette_of (uid usr) e)"
      by (simp add: find_cigarettes_Nil)
    moreover from Nil st have "st = sf" unfolding streak_days_def by simp
    ultimately show ?thesis using s by simp
  next
    case (Cons e rest)
    note h = find_cigarettes_Cons [OF Cons]
    from Cons st obtain t where t: "P (replace_Z (created_at e)) = Inr t" "st = days_since now2 t"
      unfolding streak_days_def by (cases "P (replace_Z (created_at e))") simp_all
    have chron: "micros a \<le> micros b"
      if "e' \<in> set events" "cigarette_of (uid usr) e'" "valid_datetime a" "created_at e' = isoformat a"
        "valid_datetime b" "created_at e = isoformat b" for e' a b
    proof -
      from h that(1,2) have "created_at e' \<le> created_at e" by blast
      then show ?thesis unfolding that(4,6) isoformat_le_iff [OF that(3,5)] .
    qed
    have "\<exists>e\<in>set events. \<exists>t. cigarette_of (uid usr) e
              \<and> (\<forall>e'\<in>set events. cigarette_of (uid usr) e' \<longrightarrow> created_at e' \<le> created_at e)
              \<and> (\<forall>e'\<in>set events. \<forall>a b. cigarette_of (uid usr) e'
                     \<and> valid_datetime a \<and> created_at e' = isoformat a
                     \<and> valid_datetime b \<and> created_at e = isoformat b
                   \<longrightarrow> micros a \<le> micros b)
              \<and> P (replace_Z (created_at e)) = Inr t
              \<and> current_streak s = max 0 (days_since now2 t)"
      using h t s(1) chron by blast
    moreover from h have "\<exists>e\<in>set events. cigarette_of (uid usr) e" by blast
    ultimately show ?thesis by (simp only: if_True)
  qed
qed

text \<open>The scenario of the specification: quit ten days ago, one cigarette logged two
  days ago: \<open>current_streak = 2\<close> while \<open>days_smoke_free = 10\<close>.\<close>

theorem current_streak_latest_cigarette_witness:
  "\<exists>s. get_progress_summary fromisoformat_strict example_now example_now example_user
          [cigarette_at ''2026-11-01T08:00:00+00:00''] = Inr s
     \<and> current_streak s = 2 \<and> days_smoke_free s = 10"
proof -
  let ?ev = "cigarette_at ''2026-11-01T08:00:00+00:00''"
  let ?s = "\<lparr> days_smoke_free = 10, current_streak = 2, cigarettes_avoided = 100,
             money_saved = 50, summary_quit_date = Some ''2026-10-24'' \<rparr>"
  have h: "get_progress_summary fromisoformat_strict example_now example_now example_user [?ev]
     = Inr ?s"
    by code_simp
  have c: "\<exists>e\<in>set [?ev]. cigarette_of (uid example_user) e" by code_simp
  from current_streak_latest_cigarette [OF h] c
  obtain t where "fromisoformat_strict (replace_Z (created_at ?ev)) = Inr t"
    "current_streak ?s = max 0 (days_since example_now t)"
    by auto
  moreover have "fromisoformat_strict (replace_Z (created_at ?ev))
       = Inr \<lparr> naive = \<lparr> year = 2026, month = 11, day = 1, hour = 8, minute = 0,
                                 second = 0, microsecond = 0 \<rparr>, utcoffset = Some 0 \<rparr>"
    by code_simp
  ultimately have "current_streak ?s = max 0 (days_since example_now
      \<lparr> naive = \<lparr> year = 2026, month = 11, day = 1, hour = 8, minute = 0,
                                 second = 0, microsecond = 0 \<rparr>, utcoffset = Some 0 \<rparr>)"
    by simp
  also have "\<dots> = 2" by code_simp
  finally have "current_streak ?s = 2" .
  with h show ?thesis by (intro exI [of _ ?s]) simp
qed

text \<open>
  C2 as the claim states it fails for a cigarette event stamped one second after the clock
  reading: the floor of the days elapsed is \<open>- 1\<close>, the handler returns \<open>0\<close>.
\<close>

theorem current_streak_unclamped_counterexample:
  "\<exists>s t. get_progress_summary fromisoformat_strict example_now example_now example_user
            [cigarette_at ''2026-11-03T12:00:06+00:00''] = Inr s
     \<and> fromisoformat_strict (replace_Z ''2026-11-03T12:00:06+00:00'') = Inr t
     \<and> days_since example_now t = - 1
     \<and> current_streak s = 0"
  apply (rule exI [of _ "\<lparr> days_smoke_free = 10, current_streak = 0, cigarettes_avoided = 100,
             money_saved = 50, summary_quit_date = Some ''2026-10-24'' \<rparr>"])
  apply (rule exI [of _ "\<lparr> naive = \<lparr> year = 2026, month = 11, day = 3, hour = 12, minute = 0,
                                 second = 6, microsecond = 0 \<rparr>, utcoffset = Some 0 \<rparr>"])
  apply (intro conjI)
  apply code_simp+
  done

section \<open>Properties of the daily and weekly buckets\<close>


lemma collect_map_Inr:
  "(\<And>x. x \<in> set xs \<Longrightarrow> f x = Inr (g x)) \<Longrightarrow> collect (map f xs) = Inr (map g xs)"
  by (induction xs) simp_all

lemma micros_minus_days:
  assumes "valid_datetime dt" "int k < toordinal dt"
  shows "micros (minus_days k dt) = micros dt - int k * us_per_day"
proof -
  from minus_days_correct [OF assms]
  have "toordinal (minus_days k dt) = toordinal dt - int k"
    and "time_of_day (minus_days k dt) = time_of_day dt"
    unfolding time_of_day_def by simp_all
  then show ?thesis unfolding micros_split by (simp add: left_diff_distrib)
qed

lemma minus_days_add: "minus_days j (minus_days k dt) = minus_days (k + j) dt"
  by (induction k arbitrary: dt) simp_all

lemma day_start_valid: "valid_datetime d \<Longrightarrow> valid_datetime (day_start d)"
  unfolding valid_datetime_def day_start_def by simp

lemma day_end_valid: "valid_datetime d \<Longrightarrow> valid_datetime (day_end d)"
  unfolding valid_datetime_def day_end_def by simp

lemma micros_day_start: "micros (day_start d) = toordinal d * us_per_day"
  unfolding micros_def day_start_def toordinal_def by simp

lemma micros_day_end: "micros (day_end d) = toordinal d * us_per_day + (us_per_day - 1)"
  unfolding micros_def day_end_def toordinal_def us_per_day_def by simp

lemma isoformat_day_start: "isoformat (day_start d) = date_string d @ ''T00:00:00+00:00''"
  unfolding isoformat_def day_start_def date_string_def clock_string_def fraction_def
  by (simp add: pad_values del: pad.simps)

lemma isoformat_day_end: "isoformat (day_end d) = date_string d @ ''T23:59:59.999999+00:00''"
  unfolding isoformat_def day_end_def date_string_def clock_string_def fraction_def
  by (simp add: pad_values del: pad.simps)

lemma in_day_isoformat:
  assumes "valid_datetime d" "valid_datetime t"
  shows "in_day d (isoformat t) \<longleftrightarrow> toordinal t = toordinal d"
proof -
  note b = time_of_day_bounds [OF assms(2)]
  have D: "(0::int) \<le> 0" "0 < us_per_day" "(0::int) \<le> us_per_day - 1" "us_per_day - 1 < us_per_day"
    unfolding us_per_day_def by simp_all
  have lo: "isoformat (day_start d) \<le> isoformat t \<longleftrightarrow> toordinal d \<le> toordinal t"
  proof -
    have "isoformat (day_start d) \<le> isoformat t
        \<longleftrightarrow> \<not> toordinal t * us_per_day + time_of_day t < toordinal d * us_per_day + 0"
      unfolding isoformat_le_iff [OF day_start_valid [OF assms(1)] assms(2)] micros_day_start
      unfolding micros_split by (simp add: not_less)
    also have "\<dots> \<longleftrightarrow> toordinal d \<le> toordinal t"
      unfolding radix_less [OF b D(1,2)] using b(1) by auto
    finally show ?thesis .
  qed
  have hi: "isoformat t \<le> isoformat (day_end d) \<longleftrightarrow> toordinal t \<le> toordinal d"
  proof -
    have "isoformat t \<le> isoformat (day_end d)
        \<longleftrightarrow> \<not> toordinal d * us_per_day + (us_per_day - 1) < toordinal t * us_per_day + time_of_day t"
      unfolding isoformat_le_iff [OF assms(2) day_end_valid [OF assms(1)]] micros_day_end
      unfolding micros_split by (simp add: not_less)
    also have "\<dots> \<longleftrightarrow> toordinal t \<le> toordinal d"
      unfolding radix_less [OF D(3,4) b] using b(2) by auto
    finally show ?thesis .
  qed
  show ?thesis unfolding in_day_def lo hi by auto
qed

lemma in_day_disjoint:
  assumes "valid_datetime a" "valid_datetime b" "in_day a s" "in_day b s"
  shows "toordinal a = toordinal b"
proof (rule ccontr)
  assume ne: "toordinal a \<noteq> toordinal b"
  have False if v: "valid_datetime x" "valid_datetime y" and xy: "toordinal x < toordinal y"
    and s: "in_day x s" "in_day y s" for x y
  proof -
    from xy have "toordinal x + 1 \<le> toordinal y" by simp
    then have "(toordinal x + 1) * us_per_day \<le> toordinal y * us_per_day"
      by (rule mult_right_mono) (simp add: us_per_day_def)
    then have "micros (day_end x) < micros (day_start y)"
      unfolding micros_day_start micros_day_end by (simp add: algebra_simps)
    then have "isoformat (day_end x) < isoformat (day_start y)"
      unfolding isoformat_less_iff [OF day_end_valid [OF v(1)] day_start_valid [OF v(2)]] .
    moreover from s have "isoformat (day_start y) \<le> isoformat (day_end x)"
      unfolding in_day_def by (meson order_trans)
    ultimately show False by simp
  qed
  note less_absurd = this
  from ne consider "toordinal a < toordinal b" | "toordinal b < toordinal a" by linarith
  then show False
  proof cases
    case 1
    from less_absurd [OF assms(1,2) 1 assms(3,4)] show False .
  next
    case 2
    from less_absurd [OF assms(2,1) 2 assms(4,3)] show False .
  qed
qed

lemma indicator_sum_unique:
  fixes P :: "nat \<Rightarrow> bool"
  assumes "\<And>i j. i < n \<Longrightarrow> j < n \<Longrightarrow> P i \<Longrightarrow> P j \<Longrightarrow> i = j"
  shows "(\<Sum>i\<leftarrow>[0..<n]. if P i then 1 else 0) = (if \<exists>i<n. P i then 1 else (0::nat))"
  using assms
proof (induction n)
  case 0
  then show ?case by simp
next
  case (Suc n)
  have ih: "(\<Sum>i\<leftarrow>[0..<n]. if P i then 1 else 0) = (if \<exists>i<n. P i then 1 else (0::nat))"
    by (rule Suc.IH) (use Suc.prems in \<open>meson less_Suc_eq\<close>)
  have split: "(\<Sum>i\<leftarrow>[0..<Suc n]. if P i then 1 else 0)
      = (\<Sum>i\<leftarrow>[0..<n]. if P i then 1 else 0) + (if P n then 1 else (0::nat))"
    by simp
  show ?case
  proof (cases "P n")
    case True
    have none: "\<not> (\<exists>i<n. P i)"
    proof
      assume "\<exists>i<n. P i"
      then obtain i where i: "i < n" "P i" by blast
      from Suc.prems [of i n] i True show False by simp
    qed
    from True have some: "\<exists>i<Suc n. P i" by blast
    show ?thesis unfolding split ih using True none some by simp
  next
    case False
    have "(\<exists>i<Suc n. P i) \<longleftrightarrow> (\<exists>i<n. P i)"
      using False by (auto simp: less_Suc_eq)
    then show ?thesis unfolding split ih using False by simp
  qed
qed

lemma sum_disjoint_filters:
  assumes "\<And>i j x. i < n \<Longrightarrow> j < n \<Longrightarrow> P i x \<Longrightarrow> P j x \<Longrightarrow> i = j"
  shows "(\<Sum>i\<leftarrow>[0..<n]. length (filter (P i) xs)) = length (filter (\<lambda>x. \<exists>i<n. P i x) xs)"
proof (induction xs)
  case Nil
  then show ?case by simp
next
  case (Cons x xs)
  have "(\<Sum>i\<leftarrow>[0..<n]. length (filter (P i) (x # xs)))
      = (\<Sum>i\<leftarrow>[0..<n]. (if P i x then 1 else 0) + length (filter (P i) xs))"
    by (rule arg_cong [where f = sum_list], rule map_cong) simp_all
  also have "\<dots> = (\<Sum>i\<leftarrow>[0..<n]. if P i x then 1 else 0)
                  + (\<Sum>i\<leftarrow>[0..<n]. length (filter (P i) xs))"
    by (rule sum_list_addf)
  also have "(\<Sum>i\<leftarrow>[0..<n]. if P i x then 1 else 0) = (if \<exists>i<n. P i x then 1 else (0::nat))"
    by (rule indicator_sum_unique) (use assms in blast)
  finally show ?case unfolding Cons.IH by simp
qed



lemma in_window_day:
  "in_window u (isoformat (day_start d)) (isoformat (day_end d)) e
     \<longleftrightarrow> user_id e = u \<and> in_day d (created_at e)"
  unfolding in_window_def in_day_def by simp

lemma weekly_round_Inr:
  assumes "valid_datetime now" "6 < toordinal now"
  shows "weekly_round now usr events i = Inr (day_bucket_of usr events (minus_days (6 - i) now))"
proof -
  have "int (6 - i) < toordinal now" using assms(2) by simp
  from sub_days_Inr [OF assms(1) this] show ?thesis unfolding weekly_round_def by simp
qed

lemma get_weekly_progress_Inr:
  assumes "valid_datetime now" "6 < toordinal now"
  shows "get_weekly_progress now usr events
       = Inr (map (\<lambda>i. day_bucket_of usr events (minus_days (6 - i) now)) [0..<7])"
  unfolding get_weekly_progress_def
  by (rule collect_map_Inr) (rule weekly_round_Inr [OF assms])

lemma week_day:
  assumes "valid_datetime now" "6 < toordinal now" "i < 7"
  shows "valid_datetime (minus_days (6 - i) now)"
    and "toordinal (minus_days (6 - i) now) = toordinal now - 6 + int i"
proof -
  have "int (6 - i) < toordinal now" using assms(2) by simp
  from minus_days_correct [OF assms(1) this] assms(3)
  show "valid_datetime (minus_days (6 - i) now)"
    and "toordinal (minus_days (6 - i) now) = toordinal now - 6 + int i"
    by simp_all
qed

text \<open>
  C6, as the code has it. For every user and event log, when the clock shows a valid time
  after the sixth day of year 1, \<^verbatim>\<open>get_weekly_progress\<close> returns exactly 7 buckets; bucket
  \<open>i\<close> is for the calendar day \<open>6 - i\<close> days before today, so the days are consecutive,
  oldest first, and end today; its window runs from the day's \<open>T00:00:00+00:00\<close> to its
  \<open>T23:59:59.999999+00:00\<close>, both inclusive, as stored strings, which for a timestamp written
  by \<^verbatim>\<open>isoformat\<close> means exactly the timestamps of that day; and it tallies the cigarette,
  urge and resisted events among at most the first 1000 events of the user in the window.
\<close>

theorem weekly_buckets:
  assumes "valid_datetime now" "6 < toordinal now"
  shows "\<exists>bs. get_weekly_progress now usr events = Inr bs \<and> length bs = 7
     \<and> (\<forall>i<7. let d = minus_days (6 - i) now;
                    lo = date_string d @ ''T00:00:00+00:00'';
                    hi = date_string d @ ''T23:59:59.999999+00:00'';
                    found = take 1000 (filter (\<lambda>e. user_id e = uid usr
                                \<and> lo \<le> created_at e \<and> created_at e \<le> hi) events)
                in valid_datetime d \<and> toordinal d = toordinal now - 6 + int i
                 \<and> date (bs ! i) = date_string d
                 \<and> (\<forall>t. valid_datetime t \<longrightarrow>
                       (lo \<le> isoformat t \<and> isoformat t \<le> hi \<longleftrightarrow> toordinal t = toordinal d))
                 \<and> cigarettes (bs ! i) = count_type ''cigarette'' found
                 \<and> urges (bs ! i) = count_type ''urge'' found
                 \<and> resisted (bs ! i) = count_type ''resisted'' found)"
proof -
  let ?bs = "map (\<lambda>i. day_bucket_of usr events (minus_days (6 - i) now)) [0..<7]"
  have "let d = minus_days (6 - i) now;
                    lo = date_string d @ ''T00:00:00+00:00'';
                    hi = date_string d @ ''T23:59:59.999999+00:00'';
                    found = take 1000 (filter (\<lambda>e. user_id e = uid usr
                                \<and> lo \<le> created_at e \<and> created_at e \<le> hi) events)
                in valid_datetime d \<and> toordinal d = toordinal now - 6 + int i
                 \<and> date (?bs ! i) = date_string d
                 \<and> (\<forall>t. valid_datetime t \<longrightarrow>
                       (lo \<le> isoformat t \<and> isoformat t \<le> hi \<longleftrightarrow> toordinal t = toordinal d))
                 \<and> cigarettes (?bs ! i) = count_type ''cigarette'' found
                 \<and> urges (?bs ! i) = count_type ''urge'' found
                 \<and> resisted (?bs ! i) = count_type ''resisted'' found"
    if i: "i < 7" for i
  proof -
    define d where "d = minus_days (6 - i) now"
    note wd = week_day [OF assms i, folded d_def]
    have nth: "?bs ! i = day_bucket_of usr events d"
      using i unfolding d_def by simp
    have same: "(isoformat (day_start d) \<le> isoformat t \<and> isoformat t \<le> isoformat (day_end d))
         \<longleftrightarrow> toordinal t = toordinal d" if "valid_datetime t" for t
      using in_day_isoformat [OF wd(1) that] unfolding in_day_def .
    have fw: "find_window (uid usr) (isoformat (day_start d)) (isoformat (day_end d)) events
        = take 1000 (filter (\<lambda>e. user_id e = uid usr
              \<and> isoformat (day_start d) \<le> created_at e \<and> created_at e \<le> isoformat (day_end d)) events)"
      unfolding find_window_def in_window_def ..
    show ?thesis
      unfolding Let_def d_def [symmetric] nth
      using wd same fw
      unfolding isoformat_day_start isoformat_day_end
      by (simp add: day_bucket_of_def Let_def isoformat_day_start isoformat_day_end)
  qed
  then show ?thesis
    unfolding get_weekly_progress_Inr [OF assms] by simp
qed



lemma count_type_replicate:
  "count_type t (replicate n e) = (if event_type e = t then n else 0)"
  unfolding count_type_def by simp

lemma find_window_replicate:
  "find_window u lo hi (replicate n e) = (if in_window u lo hi e then replicate (min 1000 n) e else [])"
  unfolding find_window_def by simp

lemma example_now_valid: "valid_datetime example_now" "28 < toordinal example_now"
proof -
  show "valid_datetime example_now"
    unfolding valid_datetime_def example_now_def days_in_month_def by simp
  show "28 < toordinal example_now"
    by code_simp
qed

lemma example_now_week: "6 < toordinal example_now"
  using example_now_valid(2) by simp

lemma example_today: "date_string example_now = ''2026-11-03''"
  unfolding date_string_def example_now_def by (simp add: pad_eval del: pad.simps)

text \<open>The clock of the examples, with one cigarette logged today.\<close>

theorem weekly_buckets_witness:
  "valid_datetime example_now \<and> 6 < toordinal example_now
   \<and> (\<exists>bs. get_weekly_progress example_now example_user [cigarette_at ''2026-11-03T08:00:00+00:00''] = Inr bs \<and> length bs = 7
     \<and> (\<forall>i<7. let d = minus_days (6 - i) example_now;
                    lo = date_string d @ ''T00:00:00+00:00'';
                    hi = date_string d @ ''T23:59:59.999999+00:00'';
                    found = take 1000 (filter (\<lambda>e. user_id e = uid example_user
                                \<and> lo \<le> created_at e \<and> created_at e \<le> hi) [cigarette_at ''2026-11-03T08:00:00+00:00''])
                in valid_datetime d \<and> toordinal d = toordinal example_now - 6 + int i
                 \<and> date (bs ! i) = date_string d
                 \<and> (\<forall>t. valid_datetime t \<longrightarrow>
                       (lo \<le> isoformat t \<and> isoformat t \<le> hi \<longleftrightarrow> toordinal t = toordinal d))
                 \<and> cigarettes (bs ! i) = count_type ''cigarette'' found
                 \<and> urges (bs ! i) = count_type ''urge'' found
                 \<and> resisted (bs ! i) = count_type ''resisted'' found))"
  using weekly_buckets [OF example_now_valid(1) example_now_week, of example_user
      "[cigarette_at ''2026-11-03T08:00:00+00:00'']"]
    example_now_valid(1) example_now_week
  by (intro conjI)

text \<open>
  C6 as the claim states it fails when a day holds more than 1000 events of the user: with
  1001 cigarette events today, all inside today's window, today's bucket reports 1000.
\<close>

theorem weekly_bucket_cap_counterexample:
  "\<exists>bs. get_weekly_progress example_now example_user
           (replicate 1001 (cigarette_at ''2026-11-03T08:00:00+00:00'')) = Inr bs
      \<and> date (bs ! 6) = ''2026-11-03''
      \<and> cigarettes (bs ! 6) = 1000
      \<and> count_type ''cigarette''
           (filter (\<lambda>e. user_id e = uid example_user
                      \<and> ''2026-11-03T00:00:00+00:00'' \<le> created_at e
                      \<and> created_at e \<le> ''2026-11-03T23:59:59.999999+00:00'')
              (replicate 1001 (cigarette_at ''2026-11-03T08:00:00+00:00''))) = 1001"
proof -
  let ?ev = "cigarette_at ''2026-11-03T08:00:00+00:00''"
  let ?bs = "map (\<lambda>i. day_bucket_of example_user (replicate 1001 ?ev) (minus_days (6 - i) example_now))
               [0..<7]"
  have r: "get_weekly_progress example_now example_user (replicate 1001 ?ev) = Inr ?bs"
    by (rule get_weekly_progress_Inr [OF example_now_valid(1) example_now_week])
  have w: "in_window (uid example_user) ''2026-11-03T00:00:00+00:00''
             ''2026-11-03T23:59:59.999999+00:00'' ?ev"
    by code_simp
  have t: "event_type ?ev = ''cigarette''" by code_simp
  have b: "?bs ! 6 = day_bucket_of example_user (replicate 1001 ?ev) example_now"
    by simp
  have 1: "date (?bs ! 6) = ''2026-11-03''"
    unfolding b day_bucket_of_def Let_def by (simp add: example_today)
  have 2: "cigarettes (?bs ! 6) = 1000"
    unfolding b day_bucket_of_def Let_def isoformat_day_start isoformat_day_end example_today
    using w t by (simp add: find_window_replicate count_type_replicate example_today)
  have 3: "count_type ''cigarette''
           (filter (\<lambda>e. user_id e = uid example_user
                      \<and> ''2026-11-03T00:00:00+00:00'' \<le> created_at e
                      \<and> created_at e \<le> ''2026-11-03T23:59:59.999999+00:00'')
              (replicate 1001 ?ev)) = 1001"
    using w t unfolding in_window_def by (simp add: count_type_replicate)
  from r 1 2 3 show ?thesis by (intro exI [of _ ?bs] conjI)
qed



lemma minus_days_numeral:
  "minus_days (numeral k) dt = minus_days (pred_numeral k) (prev_day dt)"
proof -
  have "minus_days (numeral k) dt = minus_days (Suc (pred_numeral k)) dt"
    by (simp only: numeral_eq_Suc)
  then show ?thesis by (simp only: minus_days.simps)
qed

lemma minus_days_0: "minus_days 0 dt = dt"
  by simp

lemma minus_days_Suc_0: "minus_days (Suc 0) dt = prev_day dt"
  by simp

lemma upt_0_7: "[0..<7] = [0, 1, 2, 3, 4, 5, 6::nat]"
  by code_simp


lemma find_window_capped:
  assumes "length (filter (in_window u lo hi) events) \<le> 1000"
  shows "find_window u lo hi events = filter (in_window u lo hi) events"
  using assms unfolding find_window_def by simp

lemma count_type_filter:
  "count_type t (filter Q events) = length (filter (\<lambda>e. Q e \<and> event_type e = t) events)"
  unfolding count_type_def by (simp add: conj_commute)

lemma week_day_unique:
  assumes "valid_datetime now" "6 < toordinal now" "i < 7" "j < 7"
    and "in_day (minus_days (6 - i) now) s" "in_day (minus_days (6 - j) now) s"
  shows "i = j"
proof -
  note a = week_day [OF assms(1,2,3)] and b = week_day [OF assms(1,2,4)]
  from in_day_disjoint [OF a(1) b(1) assms(5,6)] a(2) b(2) show ?thesis by simp
qed

lemma week_days_cover:
  assumes "valid_datetime now" "6 < toordinal now" "valid_datetime t"
  shows "(\<exists>i<7. in_day (minus_days (6 - i) now) (isoformat t))
     \<longleftrightarrow> toordinal now - 6 \<le> toordinal t \<and> toordinal t \<le> toordinal now"
proof
  assume "\<exists>i<7. in_day (minus_days (6 - i) now) (isoformat t)"
  then obtain i where i: "i < 7" "in_day (minus_days (6 - i) now) (isoformat t)" by blast
  note w = week_day [OF assms(1,2) i(1)]
  from i(2) have "toordinal t = toordinal now - 6 + int i"
    unfolding in_day_isoformat [OF w(1) assms(3)] w(2) .
  with i(1) show "toordinal now - 6 \<le> toordinal t \<and> toordinal t \<le> toordinal now" by simp
next
  assume r: "toordinal now - 6 \<le> toordinal t \<and> toordinal t \<le> toordinal now"
  define i where "i = nat (toordinal t - (toordinal now - 6))"
  from r have "0 \<le> toordinal t - (toordinal now - 6)" "toordinal t - (toordinal now - 6) < 7"
    by linarith+
  then have i: "i < 7" "toordinal t = toordinal now - 6 + int i" unfolding i_def by linarith+
  note w = week_day [OF assms(1,2) i(1)]
  have "in_day (minus_days (6 - i) now) (isoformat t)"
    unfolding in_day_isoformat [OF w(1) assms(3)] w(2) i(2) ..
  with i(1) show "\<exists>i<7. in_day (minus_days (6 - i) now) (isoformat t)" by blast
qed

text \<open>
  C5, as the code has it. For every user and event log in which no day window of the week
  holds more than 1000 events of the user, and a valid clock after the sixth day of year 1,
  the \<open>cigarettes\<close> fields of the 7 buckets of \<^verbatim>\<open>get_weekly_progress\<close> add up to the number of
  cigarette events of the user whose \<open>created_at\<close> lies in one of the 7 day windows, each
  such event being counted once. For a timestamp written by \<^verbatim>\<open>isoformat\<close> the 7 windows
  together are exactly the 7 calendar days ending today.
\<close>

theorem weekly_cigarette_sum:
  assumes "valid_datetime now" "6 < toordinal now"
    and "\<forall>i<7. length (filter (\<lambda>e. user_id e = uid usr
                   \<and> in_day (minus_days (6 - i) now) (created_at e)) events) \<le> 1000"
  shows "\<exists>bs. get_weekly_progress now usr events = Inr bs
     \<and> sum_list (map cigarettes bs)
         = length (filter (\<lambda>e. user_id e = uid usr \<and> event_type e = ''cigarette''
                      \<and> (\<exists>i<7. in_day (minus_days (6 - i) now) (created_at e))) events)
     \<and> (\<forall>t. valid_datetime t \<longrightarrow>
           ((\<exists>i<7. in_day (minus_days (6 - i) now) (isoformat t))
              \<longleftrightarrow> toordinal now - 6 \<le> toordinal t \<and> toordinal t \<le> toordinal now))"
proof -
  let ?d = "\<lambda>i. minus_days (6 - i) now"
  let ?P = "\<lambda>i e. (user_id e = uid usr \<and> in_day (?d i) (created_at e))
                  \<and> event_type e = ''cigarette''"
  let ?bs = "map (\<lambda>i. day_bucket_of usr events (?d i)) [0..<7]"
  have cig: "cigarettes (day_bucket_of usr events (?d i)) = length (filter (?P i) events)"
    if "i < 7" for i
  proof -
    from assms(3) that
    have "length (filter (in_window (uid usr) (isoformat (day_start (?d i)))
                            (isoformat (day_end (?d i)))) events) \<le> 1000"
      unfolding in_window_day by simp
    from find_window_capped [OF this] show ?thesis
      unfolding day_bucket_of_def Let_def by (simp add: count_type_filter in_window_day)
  qed
  have m: "map cigarettes ?bs = map (\<lambda>i. length (filter (?P i) events)) [0..<7]"
    unfolding map_map comp_def by (rule map_cong [OF refl]) (simp add: cig)
  have "sum_list (map cigarettes ?bs) = (\<Sum>i\<leftarrow>[0..<7]. length (filter (?P i) events))"
    by (simp only: m)
  also have "\<dots> = length (filter (\<lambda>e. \<exists>i<7. ?P i e) events)"
    by (rule sum_disjoint_filters) (use week_day_unique [OF assms(1,2)] in blast)
  also have "(\<lambda>e. \<exists>i<7. ?P i e)
      = (\<lambda>e. user_id e = uid usr \<and> event_type e = ''cigarette''
              \<and> (\<exists>i<7. in_day (?d i) (created_at e)))"
    by auto
  finally have s: "sum_list (map cigarettes ?bs)
      = length (filter (\<lambda>e. user_id e = uid usr \<and> event_type e = ''cigarette''
              \<and> (\<exists>i<7. in_day (?d i) (created_at e))) events)" .
  show ?thesis
    unfolding get_weekly_progress_Inr [OF assms(1,2)]
    using s week_days_cover [OF assms(1,2)] by simp
qed



text \<open>The clock of the examples, with one cigarette logged today.\<close>

theorem weekly_cigarette_sum_witness:
  "valid_datetime example_now \<and> 6 < toordinal example_now
   \<and> \<not> (\<exists>i<7. 1000 < length (filter (\<lambda>e. user_id e = uid example_user
                   \<and> in_day (minus_days (6 - i) example_now) (created_at e)) [cigarette_at ''2026-11-03T08:00:00+00:00'']))
   \<and> (\<exists>bs. get_weekly_progress example_now example_user [cigarette_at ''2026-11-03T08:00:00+00:00''] = Inr bs
     \<and> sum_list (map cigarettes bs)
         = length (filter (\<lambda>e. user_id e = uid example_user \<and> event_type e = ''cigarette''
                      \<and> (\<exists>i<7. in_day (minus_days (6 - i) example_now) (created_at e))) [cigarette_at ''2026-11-03T08:00:00+00:00''])
     \<and> (\<forall>t. valid_datetime t \<longrightarrow>
           ((\<exists>i<7. in_day (minus_days (6 - i) example_now) (isoformat t))
              \<longleftrightarrow> toordinal example_now - 6 \<le> toordinal t \<and> toordinal t \<le> toordinal example_now)))"
proof -
  have cap: "\<forall>i<7. length (filter (\<lambda>e. user_id e = uid example_user
                   \<and> in_day (minus_days (6 - i) example_now) (created_at e)) [cigarette_at ''2026-11-03T08:00:00+00:00'']) \<le> 1000"
  proof (intro allI impI)
    fix i :: nat
    have "length (filter (\<lambda>e. user_id e = uid example_user
                   \<and> in_day (minus_days (6 - i) example_now) (created_at e))
            [cigarette_at ''2026-11-03T08:00:00+00:00''])
        \<le> length [cigarette_at ''2026-11-03T08:00:00+00:00'']"
      by (rule length_filter_le)
    then show "length (filter (\<lambda>e. user_id e = uid example_user
                   \<and> in_day (minus_days (6 - i) example_now) (created_at e))
            [cigarette_at ''2026-11-03T08:00:00+00:00'']) \<le> 1000"
      by simp
  qed
  have ncap: "\<not> (\<exists>i<7. 1000 < length (filter (\<lambda>e. user_id e = uid example_user
                   \<and> in_day (minus_days (6 - i) example_now) (created_at e)) [cigarette_at ''2026-11-03T08:00:00+00:00'']))"
  proof
    assume "\<exists>i<7. 1000 < length (filter (\<lambda>e. user_id e = uid example_user
                   \<and> in_day (minus_days (6 - i) example_now) (created_at e)) [cigarette_at ''2026-11-03T08:00:00+00:00''])"
    then obtain i where i: "i < 7"
      "1000 < length (filter (\<lambda>e. user_id e = uid example_user
                   \<and> in_day (minus_days (6 - i) example_now) (created_at e)) [cigarette_at ''2026-11-03T08:00:00+00:00''])"
      by blast
    from cap i(1)
    have "length (filter (\<lambda>e. user_id e = uid example_user
                   \<and> in_day (minus_days (6 - i) example_now) (created_at e)) [cigarette_at ''2026-11-03T08:00:00+00:00'']) \<le> 1000"
      by blast
    with i(2) show False by simp
  qed
  from weekly_cigarette_sum [OF example_now_valid(1) example_now_week cap]
    example_now_valid(1) example_now_week ncap
  show ?thesis by (intro conjI)
qed



lemma example_days:
  "date_string (minus_days 6 example_now) = ''2026-10-28''"
  "date_string (minus_days 5 example_now) = ''2026-10-29''"
  "date_string (minus_days 4 example_now) = ''2026-10-30''"
  "date_string (minus_days 3 example_now) = ''2026-10-31''"
  "date_string (minus_days 2 example_now) = ''2026-11-01''"
  "date_string (prev_day example_now) = ''2026-11-02''"
  unfolding example_now_def
  by (simp_all add: minus_days_numeral minus_days_Suc_0 minus_days_0 prev_day_def
        days_in_month_def is_leap_def date_string_def pad_eval del: pad.simps)

lemma cigarettes_replicate:
  "cigarettes (day_bucket_of usr (replicate n e) d)
     = (if in_window (uid usr) (date_string d @ ''T00:00:00+00:00'')
              (date_string d @ ''T23:59:59.999999+00:00'') e \<and> event_type e = ''cigarette''
        then min 1000 n else 0)"
  unfolding day_bucket_of_def Let_def isoformat_day_start isoformat_day_end
  by (simp add: find_window_replicate count_type_replicate count_type_def)

lemma example_windows:
  "\<not> in_window ''u1'' ''2026-10-28T00:00:00+00:00'' ''2026-10-28T23:59:59.999999+00:00''
       (cigarette_at ''2026-11-03T08:00:00+00:00'')"
  "\<not> in_window ''u1'' ''2026-10-29T00:00:00+00:00'' ''2026-10-29T23:59:59.999999+00:00''
       (cigarette_at ''2026-11-03T08:00:00+00:00'')"
  "\<not> in_window ''u1'' ''2026-10-30T00:00:00+00:00'' ''2026-10-30T23:59:59.999999+00:00''
       (cigarette_at ''2026-11-03T08:00:00+00:00'')"
  "\<not> in_window ''u1'' ''2026-10-31T00:00:00+00:00'' ''2026-10-31T23:59:59.999999+00:00''
       (cigarette_at ''2026-11-03T08:00:00+00:00'')"
  "\<not> in_window ''u1'' ''2026-11-01T00:00:00+00:00'' ''2026-11-01T23:59:59.999999+00:00''
       (cigarette_at ''2026-11-03T08:00:00+00:00'')"
  "\<not> in_window ''u1'' ''2026-11-02T00:00:00+00:00'' ''2026-11-02T23:59:59.999999+00:00''
       (cigarette_at ''2026-11-03T08:00:00+00:00'')"
  "in_window ''u1'' ''2026-11-03T00:00:00+00:00'' ''2026-11-03T23:59:59.999999+00:00''
       (cigarette_at ''2026-11-03T08:00:00+00:00'')"
  by code_simp+

lemma example_user_uid: "uid example_user = ''u1''"
  unfolding example_user_def by simp

lemma cigarette_at_type: "event_type (cigarette_at t) = ''cigarette''"
  "user_id (cigarette_at t) = ''u1''" "created_at (cigarette_at t) = t"
  unfolding cigarette_at_def by simp_all

text \<open>
  C5 as the claim states it fails when a day holds more than 1000 events of the user: with
  1001 cigarette events today, all inside the 7-day window, the buckets add up to 1000.
\<close>

theorem weekly_sum_cap_counterexample:
  "\<exists>bs. get_weekly_progress example_now example_user
           (replicate 1001 (cigarette_at ''2026-11-03T08:00:00+00:00'')) = Inr bs
      \<and> sum_list (map cigarettes bs) = 1000
      \<and> length (filter (\<lambda>e. user_id e = uid example_user \<and> event_type e = ''cigarette''
                      \<and> ''2026-10-28T00:00:00+00:00'' \<le> created_at e
                      \<and> created_at e \<le> ''2026-11-03T23:59:59.999999+00:00'')
              (replicate 1001 (cigarette_at ''2026-11-03T08:00:00+00:00''))) = 1001"
proof -
  let ?ev = "cigarette_at ''2026-11-03T08:00:00+00:00''"
  let ?bs = "map (\<lambda>i. day_bucket_of example_user (replicate 1001 ?ev) (minus_days (6 - i) example_now))
               [0..<7]"
  have r: "get_weekly_progress example_now example_user (replicate 1001 ?ev) = Inr ?bs"
    by (rule get_weekly_progress_Inr [OF example_now_valid(1) example_now_week])
  have "map cigarettes ?bs = [0, 0, 0, 0, 0, 0, 1000]"
    unfolding upt_0_7
    by (simp add: cigarettes_replicate example_days example_today example_windows
          example_user_uid cigarette_at_type)
  then have 1: "sum_list (map cigarettes ?bs) = 1000" by simp
  have "''2026-10-28T00:00:00+00:00'' \<le> ''2026-11-03T08:00:00+00:00''
      \<and> ''2026-11-03T08:00:00+00:00'' \<le> ''2026-11-03T23:59:59.999999+00:00''"
    by code_simp
  then have 2: "length (filter (\<lambda>e. user_id e = uid example_user \<and> event_type e = ''cigarette''
                      \<and> ''2026-10-28T00:00:00+00:00'' \<le> created_at e
                      \<and> created_at e \<le> ''2026-11-03T23:59:59.999999+00:00'')
              (replicate 1001 ?ev)) = 1001"
    by (simp add: example_user_uid cigarette_at_type)
  from r 1 2 show ?thesis by (intro exI [of _ ?bs] conjI)
qed



lemma month_week:
  assumes "valid_datetime now" "28 < toordinal now" "k \<le> 28"
  shows "valid_datetime (minus_days k now)"
    and "toordinal (minus_days k now) = toordinal now - int k"
    and "micros (minus_days k now) = micros now - int k * us_per_day"
proof -
  have k: "int k < toordinal now" using assms(2,3) by simp
  from minus_days_correct [OF assms(1) k] micros_minus_days [OF assms(1) k]
  show "valid_datetime (minus_days k now)"
    and "toordinal (minus_days k now) = toordinal now - int k"
    and "micros (minus_days k now) = micros now - int k * us_per_day"
    by simp_all
qed

lemma monthly_round_Inr:
  assumes "valid_datetime now" "28 < toordinal now" "i < 4"
  shows "monthly_round now usr events i
       = Inr (week_bucket_of usr events i (minus_days (7 * i + 7) now) (minus_days (7 * i) now))"
proof -
  have i: "7 * i \<le> 28" using assms(3) by simp
  note we = month_week [OF assms(1,2) i]
  have 1: "sub_days now (7 * i) = Inr (minus_days (7 * i) now)"
    by (rule sub_days_Inr [OF assms(1)]) (use assms(2,3) in simp)
  have "int 7 < toordinal (minus_days (7 * i) now)"
    unfolding we(2) using assms(2,3) by simp
  from sub_days_Inr [OF we(1) this]
  have 2: "sub_days (minus_days (7 * i) now) 7 = Inr (minus_days (7 * i + 7) now)"
    by (simp add: minus_days_add)
  show ?thesis by (simp add: monthly_round_def 1 2)
qed

lemma get_monthly_progress_Inr:
  assumes "valid_datetime now" "28 < toordinal now"
  shows "get_monthly_progress now usr events
       = Inr (rev (map (\<lambda>i. week_bucket_of usr events i (minus_days (7 * i + 7) now)
                               (minus_days (7 * i) now)) [0..<4]))"
proof -
  have "collect (map (monthly_round now usr events) [0..<4])
      = Inr (map (\<lambda>i. week_bucket_of usr events i (minus_days (7 * i + 7) now)
                               (minus_days (7 * i) now)) [0..<4])"
    by (rule collect_map_Inr) (simp add: monthly_round_Inr [OF assms])
  then show ?thesis unfolding get_monthly_progress_def by simp
qed

lemma upt_0_4: "[0..<4] = [0, 1, 2, 3::nat]"
  by code_simp

lemma str_nat_digit: "n < 10 \<Longrightarrow> str_nat n = [digit n]"
  by (simp add: str_nat.simps)

lemma week_labels:
  "map week (rev (map (\<lambda>i. week_bucket_of usr events i (ws i) (we i)) [0..<4]))
     = [''Week 1'', ''Week 2'', ''Week 3'', ''Week 4'']"
  unfolding upt_0_4 week_bucket_of_def Let_def
  by (simp add: str_nat_digit digit_values)

lemma in_window_fun:
  "in_window u lo hi = (\<lambda>e. user_id e = u \<and> lo \<le> created_at e \<and> created_at e \<le> hi)"
  by (rule ext) (simp add: in_window_def)

lemma window_isoformat:
  assumes "valid_datetime a" "valid_datetime b" "valid_datetime t"
  shows "isoformat a \<le> isoformat t \<and> isoformat t \<le> isoformat b
     \<longleftrightarrow> micros a \<le> micros t \<and> micros t \<le> micros b"
  unfolding isoformat_le_iff [OF assms(1,3)] isoformat_le_iff [OF assms(3,2)] ..

text \<open>
  C7, as the code has it. For every user and event log, when the clock shows a valid time
  after the 28th day of year 1, \<^verbatim>\<open>get_monthly_progress\<close> returns exactly 4 buckets labelled
  \<open>Week 1\<close> to \<open>Week 4\<close>, oldest first; bucket \<open>j\<close> (counted from 0) is round \<open>i = 3 - j\<close> of the
  loop, its window runs from \<open>now - (i + 1) * 7\<close> days to \<open>now - i * 7\<close> days, both ends
  inclusive, compared as stored strings, which for a timestamp written by \<^verbatim>\<open>isoformat\<close> is
  the comparison of the instants; and it tallies the cigarette, urge and resisted events
  among at most the first 1000 events of the user in the window.
\<close>

theorem monthly_buckets:
  assumes "valid_datetime now" "28 < toordinal now"
  shows "\<exists>bs. get_monthly_progress now usr events = Inr bs \<and> length bs = 4
     \<and> map week bs = [''Week 1'', ''Week 2'', ''Week 3'', ''Week 4'']
     \<and> (\<forall>j<4. let week_end = minus_days (7 * (3 - j)) now;
                    week_start = minus_days (7 * (3 - j) + 7) now;
                    found = take 1000 (filter (\<lambda>e. user_id e = uid usr
                                \<and> isoformat week_start \<le> created_at e
                                \<and> created_at e \<le> isoformat week_end) events)
                in valid_datetime week_start \<and> valid_datetime week_end
                 \<and> micros week_end = micros now - int (3 - j) * (7 * us_per_day)
                 \<and> micros week_start = micros now - (int (3 - j) + 1) * (7 * us_per_day)
                 \<and> (\<forall>t. valid_datetime t \<longrightarrow>
                       (isoformat week_start \<le> isoformat t \<and> isoformat t \<le> isoformat week_end
                          \<longleftrightarrow> micros week_start \<le> micros t \<and> micros t \<le> micros week_end))
                 \<and> cigarettes (bs ! j) = count_type ''cigarette'' found
                 \<and> urges (bs ! j) = count_type ''urge'' found
                 \<and> resisted (bs ! j) = count_type ''resisted'' found)"
proof -
  let ?f = "\<lambda>i. week_bucket_of usr events i (minus_days (7 * i + 7) now) (minus_days (7 * i) now)"
  let ?bs = "rev (map ?f [0..<4])"
  have "let week_end = minus_days (7 * (3 - j)) now;
                    week_start = minus_days (7 * (3 - j) + 7) now;
                    found = take 1000 (filter (\<lambda>e. user_id e = uid usr
                                \<and> isoformat week_start \<le> created_at e
                                \<and> created_at e \<le> isoformat week_end) events)
                in valid_datetime week_start \<and> valid_datetime week_end
                 \<and> micros week_end = micros now - int (3 - j) * (7 * us_per_day)
                 \<and> micros week_start = micros now - (int (3 - j) + 1) * (7 * us_per_day)
                 \<and> (\<forall>t. valid_datetime t \<longrightarrow>
                       (isoformat week_start \<le> isoformat t \<and> isoformat t \<le> isoformat week_end
                          \<longleftrightarrow> micros week_start \<le> micros t \<and> micros t \<le> micros week_end))
                 \<and> cigarettes (?bs ! j) = count_type ''cigarette'' found
                 \<and> urges (?bs ! j) = count_type ''urge'' found
                 \<and> resisted (?bs ! j) = count_type ''resisted'' found"
    if j: "j < 4" for j
  proof -
    define i where "i = 3 - j"
    have i: "i < 4" "7 * i \<le> 28" "7 * i + 7 \<le> 28" using j unfolding i_def by simp_all
    note we = month_week [OF assms i(2)] and ws = month_week [OF assms i(3)]
    have nth: "?bs ! j = ?f i"
      using j unfolding i_def by (simp add: rev_nth)
    have m1: "micros (minus_days (7 * i) now) = micros now - int i * (7 * us_per_day)"
      unfolding we(3) by simp
    have m2: "micros (minus_days (7 * i + 7) now) = micros now - (int i + 1) * (7 * us_per_day)"
      unfolding ws(3) by (simp add: algebra_simps)
    show ?thesis
      unfolding Let_def i_def [symmetric] nth
      using we(1) ws(1) m1 m2 window_isoformat [OF ws(1) we(1)]
      by (simp add: week_bucket_of_def Let_def find_window_def in_window_fun)
  qed
  then show ?thesis
    unfolding get_monthly_progress_Inr [OF assms]
    by (simp add: week_labels)
qed



text \<open>The clock of the examples, with one cigarette logged today.\<close>

theorem monthly_buckets_witness:
  "valid_datetime example_now \<and> 28 < toordinal example_now
   \<and> (\<exists>bs. get_monthly_progress example_now example_user [cigarette_at ''2026-11-03T08:00:00+00:00''] = Inr bs \<and> length bs = 4
     \<and> map week bs = [''Week 1'', ''Week 2'', ''Week 3'', ''Week 4'']
     \<and> (\<forall>j<4. let week_end = minus_days (7 * (3 - j)) example_now;
                    week_start = minus_days (7 * (3 - j) + 7) example_now;
                    found = take 1000 (filter (\<lambda>e. user_id e = uid example_user
                                \<and> isoformat week_start \<le> created_at e
                                \<and> created_at e \<le> isoformat week_end) [cigarette_at ''2026-11-03T08:00:00+00:00''])
                in valid_datetime week_start \<and> valid_datetime week_end
                 \<and> micros week_end = micros example_now - int (3 - j) * (7 * us_per_day)
                 \<and> micros week_start = micros example_now - (int (3 - j) + 1) * (7 * us_per_day)
                 \<and> (\<forall>t. valid_datetime t \<longrightarrow>
                       (isoformat week_start \<le> isoformat t \<and> isoformat t \<le> isoformat week_end
                          \<longleftrightarrow> micros week_start \<le> micros t \<and> micros t \<le> micros week_end))
                 \<and> cigarettes (bs ! j) = count_type ''cigarette'' found
                 \<and> urges (bs ! j) = count_type ''urge'' found
                 \<and> resisted (bs ! j) = count_type ''resisted'' found))"
  using monthly_buckets [OF example_now_valid, of example_user
      "[cigarette_at ''2026-11-03T08:00:00+00:00'']"]
    example_now_valid
  by (intro conjI)

lemma example_week_ends:
  "isoformat example_now = ''2026-11-03T12:00:05+00:00''"
  "isoformat (minus_days 7 example_now) = ''2026-10-27T12:00:05+00:00''"
  unfolding example_now_def
  by (simp_all add: minus_days_numeral minus_days_Suc_0 minus_days_0 prev_day_def
        days_in_month_def is_leap_def isoformat_def date_string_def clock_string_def
        fraction_def pad_eval del: pad.simps)

lemma week_cigarettes_replicate:
  "cigarettes (week_bucket_of usr (replicate n e) i ws we)
     = (if in_window (uid usr) (isoformat ws) (isoformat we) e \<and> event_type e = ''cigarette''
        then min 1000 n else 0)"
  unfolding week_bucket_of_def Let_def
  by (simp add: find_window_replicate count_type_replicate count_type_def)

text \<open>
  C7 as the claim states it fails when a week holds more than 1000 events of the user: with
  1001 cigarette events inside the most recent window, \<open>Week 4\<close> reports 1000.
\<close>

theorem monthly_bucket_cap_counterexample:
  "\<exists>bs. get_monthly_progress example_now example_user
           (replicate 1001 (cigarette_at ''2026-11-03T08:00:00+00:00'')) = Inr bs
      \<and> week (bs ! 3) = ''Week 4''
      \<and> cigarettes (bs ! 3) = 1000
      \<and> count_type ''cigarette''
           (filter (\<lambda>e. user_id e = uid example_user
                      \<and> ''2026-10-27T12:00:05+00:00'' \<le> created_at e
                      \<and> created_at e \<le> ''2026-11-03T12:00:05+00:00'')
              (replicate 1001 (cigarette_at ''2026-11-03T08:00:00+00:00''))) = 1001"
proof -
  let ?ev = "cigarette_at ''2026-11-03T08:00:00+00:00''"
  let ?f = "\<lambda>i. week_bucket_of example_user (replicate 1001 ?ev) i
              (minus_days (7 * i + 7) example_now) (minus_days (7 * i) example_now)"
  let ?bs = "rev (map ?f [0..<4])"
  have r: "get_monthly_progress example_now example_user (replicate 1001 ?ev) = Inr ?bs"
    by (rule get_monthly_progress_Inr [OF example_now_valid])
  have b: "?bs ! 3 = week_bucket_of example_user (replicate 1001 ?ev) 0
              (minus_days 7 example_now) example_now"
    unfolding upt_0_4 by simp
  have w: "in_window ''u1'' ''2026-10-27T12:00:05+00:00'' ''2026-11-03T12:00:05+00:00'' ?ev"
    by code_simp
  have 1: "week (?bs ! 3) = ''Week 4''"
    by (subst b) (simp add: week_bucket_of_def Let_def str_nat_digit digit_values)
  have 2: "cigarettes (?bs ! 3) = 1000"
    using w
    by (subst b)
      (simp add: week_cigarettes_replicate example_week_ends example_user_uid cigarette_at_type)
  have 3: "count_type ''cigarette''
           (filter (\<lambda>e. user_id e = uid example_user
                      \<and> ''2026-10-27T12:00:05+00:00'' \<le> created_at e
                      \<and> created_at e \<le> ''2026-11-03T12:00:05+00:00'')
              (replicate 1001 ?ev)) = 1001"
    using w unfolding in_window_def
    by (simp add: count_type_replicate example_user_uid cigarette_at_type)
  from r 1 2 3 show ?thesis by (intro exI [of _ ?bs] conjI)
qed


section \<open>Properties of the trigger patterns\<close>

lemma bump_map_fst:
  "map fst (bump k m) = (if k \<in> fst ` set m then map fst m else map fst m @ [k])"
proof (induction m)
  case Nil
  then show ?case by simp
next
  case (Cons p m)
  obtain k' c where p: "p = (k', c)" by (cases p)
  show ?case unfolding p using Cons by simp
qed

lemma bump_keys: "fst ` set (bump k m) = insert k (fst ` set m)"
proof -
  have "set (map fst (bump k m)) = insert k (set (map fst m))"
    unfolding bump_map_fst by auto
  then show ?thesis by simp
qed

lemma bump_distinct: "distinct (map fst m) \<Longrightarrow> distinct (map fst (bump k m))"
  unfolding bump_map_fst by simp

lemma bump_map_of:
  "map_of (bump k m) = (map_of m)(k \<mapsto> (case map_of m k of None \<Rightarrow> 1 | Some c \<Rightarrow> c + 1))"
proof (induction m)
  case Nil
  then show ?case by simp
next
  case (Cons p m)
  obtain k' c where p: "p = (k', c)" by (cases p)
  show ?case unfolding p using Cons by (auto simp: fun_eq_iff)
qed

lemma foldl_bump:
  assumes "distinct (map fst acc)" "\<forall>(k, c)\<in>set acc. 0 < c"
  shows "distinct (map fst (foldl (\<lambda>m t. bump (trigger_type t) m) acc ts))
     \<and> (\<forall>k. map_of (foldl (\<lambda>m t. bump (trigger_type t) m) acc ts) k
            = (if k \<in> fst ` set acc \<or> k \<in> trigger_type ` set ts
               then Some (tally_of acc k + occurrences k ts) else None))"
  using assms
proof (induction ts arbitrary: acc)
  case Nil
  have "map_of acc k = (if k \<in> fst ` set acc then Some (tally_of acc k) else None)" for k
    unfolding tally_of_def
    by (cases "map_of acc k") (simp_all add: map_of_eq_None_iff [symmetric])
  with Nil show ?case by (simp add: occurrences_def)
next
  case (Cons t ts)
  let ?acc = "bump (trigger_type t) acc"
  have d: "distinct (map fst ?acc)" by (rule bump_distinct [OF Cons.prems(1)])
  have pos: "\<forall>(k, c)\<in>set ?acc. 0 < c"
  proof (clarify)
    fix k c assume "(k, c) \<in> set ?acc"
    with d have "map_of ?acc k = Some c" by simp
    then show "0 < c"
      unfolding bump_map_of using Cons.prems
      by (auto split: if_splits option.splits dest!: map_of_SomeD)
  qed
  have keys: "fst ` set ?acc = insert (trigger_type t) (fst ` set acc)" by (rule bump_keys)
  have tal: "tally_of ?acc k = tally_of acc k + (if k = trigger_type t then 1 else 0)" for k
    unfolding tally_of_def bump_map_of by (auto split: option.splits)
  from Cons.IH [OF d pos] show ?case
    unfolding foldl_Cons keys by (auto simp: tal occurrences_def)
qed

lemma count_by_type_correct:
  "distinct (map fst (count_by_type ts))"
  "map_of (count_by_type ts) k
     = (if k \<in> trigger_type ` set ts then Some (occurrences k ts) else None)"
  using foldl_bump [of "[]" ts] unfolding count_by_type_def tally_of_def by simp_all


lemma sorted_types_desc:
  "sorted_wrt (\<lambda>a b. snd b \<le> snd a) (sort_key (\<lambda>(k, c). - int c) (m :: (string \<times> nat) list))"
proof -
  have "sorted (map (\<lambda>(k, c). - int c) (sort_key (\<lambda>(k, c). - int c) m))"
    by (rule sorted_sort_key)
  then show ?thesis
    unfolding sorted_map by (auto simp: case_prod_beta elim: sorted_wrt_mono_rel [rotated])
qed

lemma head_is_max:
  fixes p q :: "string \<times> nat"
  assumes "sorted_wrt (\<lambda>a b. snd b \<le> snd a) (p # ps)" "q \<in> set (p # ps)"
  shows "snd q \<le> snd p"
  using assms by auto

text \<open>
  C9, as the code has it. For every user, \<^verbatim>\<open>get_trigger_patterns\<close> works on at most the first
  1000 trigger records of the user that the store returns, with no time filter:
  \<open>total_triggers\<close> is their number; \<open>by_type\<close> holds each type that occurs once, with the
  number of its records; the types are ranked by descending count, \<open>top_triggers\<close> being the
  first 5 of the ranking with their counts and \<open>most_common\<close> its first type, a type of
  greatest count; with no record, \<open>total_triggers = 0\<close>, \<open>most_common\<close> is none and
  \<open>top_triggers\<close> is empty.
\<close>

theorem trigger_patterns:
  "let found = take 1000 (filter (\<lambda>t. trigger_user_id t = uid usr) triggers);
       r = get_trigger_patterns usr triggers
   in total_triggers r = length found
    \<and> distinct (map fst (by_type r))
    \<and> (\<forall>k. map_of (by_type r) k
           = (if k \<in> trigger_type ` set found then Some (occurrences k found) else None))
    \<and> (\<exists>sorted_types. mset sorted_types = mset (by_type r)
           \<and> sorted_wrt (\<lambda>a b. snd b \<le> snd a) sorted_types
           \<and> top_triggers r = take 5 sorted_types
           \<and> most_common r = (case sorted_types of [] \<Rightarrow> None | (k, c) # _ \<Rightarrow> Some k))
    \<and> (\<forall>k. most_common r = Some k \<longrightarrow>
           k \<in> trigger_type ` set found \<and> (\<forall>k'. occurrences k' found \<le> occurrences k found))
    \<and> (found = [] \<longrightarrow> total_triggers r = 0 \<and> by_type r = [] \<and> most_common r = None
           \<and> top_triggers r = [])"
proof -
  define found where "found = take 1000 (filter (\<lambda>t. trigger_user_id t = uid usr) triggers)"
  define m where "m = count_by_type found"
  define s where "s = sort_key (\<lambda>(k, c). - int c) m"
  define r where "r = get_trigger_patterns usr triggers"
  have r: "total_triggers r = length found" "by_type r = m"
    "most_common r = (case s of [] \<Rightarrow> None | (k, c) # _ \<Rightarrow> Some k)"
    "top_triggers r = take 5 s"
    unfolding r_def get_trigger_patterns_def Let_def find_triggers_def found_def m_def s_def
    by simp_all
  note m = count_by_type_correct [of found, folded m_def]
  have ms: "mset s = mset m" unfolding s_def by simp
  have srt: "sorted_wrt (\<lambda>a b. snd b \<le> snd a) s" unfolding s_def by (rule sorted_types_desc)
  have entry: "k \<in> trigger_type ` set found \<and> c = occurrences k found" if "(k, c) \<in> set m" for k c
  proof -
    from that m(1) have "map_of m k = Some c" by simp
    then show ?thesis unfolding m(2) by (simp split: if_splits)
  qed
  have top: "k \<in> trigger_type ` set found \<and> (\<forall>k'. occurrences k' found \<le> occurrences k found)"
    if mc: "most_common r = Some k" for k
  proof -
    from mc obtain c rest where s: "s = (k, c) # rest"
      unfolding r(3) by (auto split: list.splits)
    have "(k, c) \<in> set m" using ms s by (metis list.set_intros(1) mset_eq_setD)
    note e = entry [OF this]
    have "occurrences k' found \<le> occurrences k found" for k'
    proof (cases "k' \<in> trigger_type ` set found")
      case True
      then have "map_of m k' = Some (occurrences k' found)" unfolding m(2) by simp
      then have "(k', occurrences k' found) \<in> set m" by (rule map_of_SomeD)
      then have "(k', occurrences k' found) \<in> set ((k, c) # rest)"
        using ms s by (metis mset_eq_setD)
      from head_is_max [OF srt [unfolded s] this] e show ?thesis by simp
    next
      case False
      then have "occurrences k' found = 0"
        unfolding occurrences_def by (auto simp: filter_empty_conv)
      then show ?thesis by simp
    qed
    with e show ?thesis by blast
  qed
  have empty: "total_triggers r = 0 \<and> by_type r = [] \<and> most_common r = None \<and> top_triggers r = []"
    if "found = []"
  proof -
    from that have "m = []" unfolding m_def count_by_type_def by simp
    then have "s = []" unfolding s_def by simp
    with \<open>m = []\<close> that show ?thesis unfolding r by simp
  qed
  have "total_triggers r = length found
    \<and> distinct (map fst (by_type r))
    \<and> (\<forall>k. map_of (by_type r) k
           = (if k \<in> trigger_type ` set found then Some (occurrences k found) else None))
    \<and> (\<exists>sorted_types. mset sorted_types = mset (by_type r)
           \<and> sorted_wrt (\<lambda>a b. snd b \<le> snd a) sorted_types
           \<and> top_triggers r = take 5 sorted_types
           \<and> most_common r = (case sorted_types of [] \<Rightarrow> None | (k, c) # _ \<Rightarrow> Some k))
    \<and> (\<forall>k. most_common r = Some k \<longrightarrow>
           k \<in> trigger_type ` set found \<and> (\<forall>k'. occurrences k' found \<le> occurrences k found))
    \<and> (found = [] \<longrightarrow> total_triggers r = 0 \<and> by_type r = [] \<and> most_common r = None
           \<and> top_triggers r = [])"
    using r(1) m top empty ms srt r(3,4) unfolding r(2) by blast
  then show ?thesis unfolding Let_def found_def r_def .
qed



text \<open>Three records, two of them of type \<open>stress\<close>.\<close>

theorem trigger_patterns_witness:
  "total_triggers (get_trigger_patterns example_user
       [trigger_of ''stress'', trigger_of ''boredom'', trigger_of ''stress'']) = 3
   \<and> by_type (get_trigger_patterns example_user
       [trigger_of ''stress'', trigger_of ''boredom'', trigger_of ''stress''])
       = [(''stress'', 2), (''boredom'', 1)]
   \<and> most_common (get_trigger_patterns example_user
       [trigger_of ''stress'', trigger_of ''boredom'', trigger_of ''stress'']) = Some ''stress''
   \<and> (\<forall>k'. occurrences k' [trigger_of ''stress'', trigger_of ''boredom'', trigger_of ''stress'']
           \<le> occurrences ''stress''
                [trigger_of ''stress'', trigger_of ''boredom'', trigger_of ''stress''])"
proof -
  let ?ts = "[trigger_of ''stress'', trigger_of ''boredom'', trigger_of ''stress'']"
  let ?r = "get_trigger_patterns example_user ?ts"
  have f: "take 1000 (filter (\<lambda>t. trigger_user_id t = uid example_user) ?ts) = ?ts"
    by (simp add: trigger_of_def example_user_def)
  have e: "total_triggers ?r = 3" "by_type ?r = [(''stress'', 2), (''boredom'', 1)]"
    "most_common ?r = Some ''stress''"
    by code_simp+
  from trigger_patterns [of example_user ?ts]
  have "\<forall>k. most_common ?r = Some k \<longrightarrow>
           k \<in> trigger_type ` set ?ts \<and> (\<forall>k'. occurrences k' ?ts \<le> occurrences k ?ts)"
    unfolding Let_def f by (elim conjE)
  with e(3) have "\<forall>k'. occurrences k' ?ts \<le> occurrences ''stress'' ?ts" by blast
  with e show ?thesis by (intro conjI)
qed

text \<open>
  C9 as the claim states it fails for a user with more than 1000 trigger records: with 1001
  records \<open>total_triggers\<close> is 1000.
\<close>

theorem trigger_cap_counterexample:
  "total_triggers (get_trigger_patterns example_user (replicate 1001 (trigger_of ''stress''))) = 1000
   \<and> length (filter (\<lambda>t. trigger_user_id t = uid example_user)
               (replicate 1001 (trigger_of ''stress''))) = 1001"
  unfolding get_trigger_patterns_def Let_def find_triggers_def
  by (simp add: trigger_of_def example_user_def)


end
